theory Spec2Isabelle
  imports Complex_Main "HOL-Library.Multiset"
begin

section \<open>The sliding puzzle of SlidingPuzzle.js\<close>

text \<open>
  A board is the flat array \<open>tiles\<close>: the values \<open>0 .. n*n-1\<close> in row-major order,
  \<open>0\<close> being the blank. Tile values are natural numbers; indices that the code
  computes with \<open>indexOf\<close>, \<open>Math.floor(idx / size)\<close> and \<open>idx % size\<close> are
  integers, since \<open>indexOf\<close> answers \<open>-1\<close> for a value that is absent.
\<close>

subsection \<open>Array helpers\<close>

text \<open>\<open>Array.prototype.indexOf\<close>: the first index holding \<open>v\<close>, or \<open>-1\<close>.\<close>

fun indexOf :: "nat list \<Rightarrow> nat \<Rightarrow> int" where
  "indexOf [] v = - 1"
| "indexOf (x # xs) v =
     (if x = v then 0 else (let k = indexOf xs v in if k < 0 then - 1 else k + 1))"

text \<open>
  The destructuring swap \<open>[arr[i], arr[j]] = [arr[j], arr[i]]\<close>: the right-hand side
  is read first, then \<open>arr[i]\<close> and \<open>arr[j]\<close> are written in this order. Every call
  site of the program passes indices inside the array (the shuffle has \<open>j \<le> i < length\<close>,
  a click passes the index of a rendered tile, a direction is bounds-checked).
\<close>

definition swap :: "nat \<Rightarrow> nat \<Rightarrow> 'a list \<Rightarrow> 'a list" where
  "swap i j arr = (arr[i := arr ! j])[j := arr ! i]"

subsection \<open>makeSolved, isSolved\<close>

definition makeSolved :: "nat \<Rightarrow> nat list" where
  "makeSolved n = map (\<lambda>i. (i + 1) mod (n * n)) [0 ..< n * n]"

text \<open>
  The loop of \<open>isSolved\<close>, from index \<open>i\<close> on: it answers \<open>False\<close> at the first
  index below \<open>arr.length - 1\<close> whose value is not \<open>i + 1\<close>.
\<close>

function isSolved_loop :: "nat list \<Rightarrow> nat \<Rightarrow> bool" where
  "isSolved_loop arr i =
     (if i < length arr - 1
      then (if arr ! i \<noteq> i + 1 then False else isSolved_loop arr (i + 1))
      else True)"
  by pat_completeness auto
termination
  by (relation "measure (\<lambda>(arr, i). length arr - 1 - i)") auto

declare isSolved_loop.simps [simp del]

text \<open>
  After the loop the last element is compared with \<open>0\<close>; on the empty array
  \<open>arr[-1]\<close> is \<open>undefined\<close> and the comparison is false.
\<close>

definition isSolved :: "nat list \<Rightarrow> bool" where
  "isSolved arr = (if isSolved_loop arr 0 then arr \<noteq> [] \<and> arr ! (length arr - 1) = 0 else False)"

subsection \<open>inversionCount, isSolvable\<close>

function inversion_inner :: "nat list \<Rightarrow> nat \<Rightarrow> nat \<Rightarrow> nat \<Rightarrow> nat" where
  "inversion_inner nums i j invc =
     (if j < length nums
      then inversion_inner nums i (j + 1) (if nums ! i > nums ! j then invc + 1 else invc)
      else invc)"
  by pat_completeness auto
termination
  by (relation "measure (\<lambda>(nums, i, j, invc). length nums - j)") auto

declare inversion_inner.simps [simp del]

function inversion_outer :: "nat list \<Rightarrow> nat \<Rightarrow> nat \<Rightarrow> nat" where
  "inversion_outer nums i invc =
     (if i < length nums
      then inversion_outer nums (i + 1) (inversion_inner nums i (i + 1) invc)
      else invc)"
  by pat_completeness auto
termination
  by (relation "measure (\<lambda>(nums, i, invc). length nums - i)") auto

declare inversion_outer.simps [simp del]

definition inversionCount :: "nat list \<Rightarrow> nat" where
  "inversionCount arr = inversion_outer (filter (\<lambda>v. v \<noteq> 0) arr) 0 0"

text \<open>
  \<open>isSolvable(arr, n)\<close>. For \<open>n = 0\<close> the quotient \<open>blankIndex / n\<close> is infinite or
  NaN, \<open>rowFromBottom % 2 === 0\<close> is false whatever the blank index is, and the
  function answers \<open>inv % 2 === 0\<close>; this is the first branch of the even case.
\<close>

definition isSolvable :: "nat list \<Rightarrow> nat \<Rightarrow> bool" where
  "isSolvable arr n =
     (let invc = inversionCount arr in
      if n mod 2 = 1 then invc mod 2 = 0
      else if n = 0 then invc mod 2 = 0
      else
        (let blankIndex = indexOf arr 0;
             rowFromTop = blankIndex div int n + 1;
             rowFromBottom = int n - rowFromTop + 1
         in if rowFromBottom mod 2 = 0 then invc mod 2 = 1 else invc mod 2 = 0))"

subsection \<open>shuffleToSolvable\<close>

text \<open>
  \<open>Math.random()\<close> is an input of the program: \<open>rnd k\<close> is the value of its
  \<open>k\<close>-th call, a number in \<open>[0, 1)\<close> (\<open>random_ok\<close>); every shuffling function
  takes the number \<open>k\<close> of calls made so far and returns the new count. The
  product \<open>Math.random() * (i + 1)\<close> is taken exactly.
\<close>

definition random_ok :: "(nat \<Rightarrow> rat) \<Rightarrow> bool" where
  "random_ok rnd = (\<forall>k. 0 \<le> rnd k \<and> rnd k < 1)"

text \<open>The Fisher-Yates loop \<open>for (let i = arr.length - 1; i > 0; i--)\<close>, from \<open>i\<close> on.\<close>

function fisherYates :: "(nat \<Rightarrow> rat) \<Rightarrow> nat \<Rightarrow> nat \<Rightarrow> nat list \<Rightarrow> nat list \<times> nat" where
  "fisherYates rnd k i arr =
     (if i > 0
      then (let j = nat \<lfloor>rnd k * of_nat (i + 1)\<rfloor>
            in fisherYates rnd (k + 1) (i - 1) (swap i j arr))
      else (arr, k))"
  by pat_completeness auto
termination
  by (relation "measure (\<lambda>(rnd, k, i, arr). i)") auto

declare fisherYates.simps [simp del]

text \<open>
  The \<open>do ... while\<close> loop has no bound: it runs until a shuffle is solvable and not
  solved, and \<open>None\<close> is the run that never leaves it.
\<close>

partial_function (option) shuffleToSolvable ::
  "(nat \<Rightarrow> rat) \<Rightarrow> nat \<Rightarrow> nat \<Rightarrow> (nat list \<times> nat) option" where
  "shuffleToSolvable rnd n k =
     (case fisherYates rnd k (length (makeSolved n) - 1) (makeSolved n) of
        (arr, k') \<Rightarrow>
          if \<not> isSolvable arr n \<or> isSolved arr then shuffleToSolvable rnd n k'
          else Some (arr, k'))"

subsection \<open>The component state\<close>

text \<open>
  The \<open>useState\<close> cells of the component. \<open>highScores\<close> is an object: a key it does
  not have reads as \<open>undefined\<close>. \<open>message\<close> is either the empty string or the text
  "You solved it in \<open>m\<close> moves and \<open>t\<close> seconds!". \<open>tilesId\<close> is the identity of the
  array object held in \<open>tiles\<close>: every \<open>setTiles\<close> of the program stores a freshly
  allocated array, and the dependency list \<open>[tiles, running]\<close> of the key listener's
  effect compares arrays by identity.
\<close>

datatype jsval = Undefined | Null | Num nat

datatype message = NoMessage | SolvedMessage nat nat

record state =
  size_st :: nat
  tiles :: "nat list"
  tilesId :: nat
  moves :: nat
  time_st :: nat
  running :: bool
  message :: message
  highScores :: "nat \<Rightarrow> jsval"

definition initial_state :: state where
  "initial_state =
     \<lparr>size_st = 4, tiles = [], tilesId = 0, moves = 0, time_st = 0, running = False,
      message = NoMessage,
      highScores = (\<lambda>k. if k = 3 \<or> k = 4 \<or> k = 5 then Null else Undefined)\<rparr>"

text \<open>\<open>finalMoves < highScores[size]\<close>: \<open>null\<close> converts to \<open>0\<close>, \<open>undefined\<close> to NaN.\<close>

fun js_less :: "nat \<Rightarrow> jsval \<Rightarrow> bool" where
  "js_less m (Num k) = (m < k)"
| "js_less m Null = (m < 0)"
| "js_less m Undefined = False"

subsection \<open>Positions and adjacency\<close>

text \<open>JavaScript's \<open>%\<close> takes the sign of the dividend (the divisor is positive here).\<close>

definition js_rem :: "int \<Rightarrow> int \<Rightarrow> int" where
  "js_rem a b = (if a < 0 then - ((- a) mod b) else a mod b)"

text \<open>\<open>indexToPos\<close> and \<open>posToIndex\<close>, for a positive \<open>size\<close>; a position is \<open>(r, c)\<close>.\<close>

definition indexToPos :: "nat \<Rightarrow> int \<Rightarrow> int \<times> int" where
  "indexToPos sz idx = (idx div int sz, js_rem idx (int sz))"

definition posToIndex :: "nat \<Rightarrow> int \<Rightarrow> int \<Rightarrow> int" where
  "posToIndex sz r c = r * int sz + c"

text \<open>
  \<open>canSwap\<close>. With \<open>size = 0\<close> the columns are NaN, so is \<open>dr + dc\<close>, and the
  comparison with \<open>1\<close> is false.
\<close>

definition canSwap :: "nat \<Rightarrow> int \<Rightarrow> int \<Rightarrow> bool" where
  "canSwap sz i j =
     (if sz = 0 then False
      else (case indexToPos sz i of (ar, ac) \<Rightarrow>
            case indexToPos sz j of (br, bc) \<Rightarrow>
              (let dr = \<bar>ar - br\<bar>; dc = \<bar>ac - bc\<bar> in dr + dc = 1)))"

subsection \<open>The handlers\<close>

text \<open>
  A handler is a closure of one render of the component: it reads the state of that
  render, \<open>r\<close>, and its \<open>set...\<close> calls update the state the component holds when the
  event arrives, \<open>s\<close>; \<open>setMoves((m) => m + 1)\<close> and \<open>setHighScores(prev => ...)\<close>
  are updates of \<open>s\<close>. The \<open>onClick\<close> handlers of the buttons belong to the latest
  render, so there \<open>r = s\<close>.
\<close>

definition onWin :: "state \<Rightarrow> state \<Rightarrow> state" where
  "onWin r s =
     (let s1 = s\<lparr>running := False\<rparr>;
          finalMoves = moves r + 1;
          s2 = s1\<lparr>message := SolvedMessage finalMoves (time_st r)\<rparr>
      in if highScores r (size_st r) = Null \<or> js_less finalMoves (highScores r (size_st r))
         then s2\<lparr>highScores := (highScores s2)(size_st r := Num finalMoves)\<rparr>
         else s2)"

definition handleTileClick :: "state \<Rightarrow> nat \<Rightarrow> state \<Rightarrow> state" where
  "handleTileClick r i s =
     (if \<not> running r then s
      else (let blank = indexOf (tiles r) 0 in
            if canSwap (size_st r) (int i) blank
            then (let next = swap i (nat blank) (tiles r);
                      s1 = s\<lparr>tiles := next, tilesId := tilesId s + 1\<rparr>;
                      s2 = s1\<lparr>moves := moves s1 + 1\<rparr>
                  in if isSolved next then onWin r s2 else s2)
            else s))"

datatype direction = Up | Down | Left | Right

text \<open>
  The first half of \<open>moveByDirection\<close>: the index of the target cell, or \<open>None\<close>
  where the function returns because the target is outside the grid. With
  \<open>size = 0\<close> the target is infinite or NaN and nothing is swapped.
\<close>

definition directionTarget :: "nat \<Rightarrow> int \<Rightarrow> direction \<Rightarrow> int option" where
  "directionTarget sz blank d =
     (if sz = 0 then None
      else (case indexToPos sz blank of (pr, pc) \<Rightarrow>
        (let targetR = (if d = Up then pr - 1 else if d = Down then pr + 1 else pr);
             targetC = (if d = Left then pc - 1 else if d = Right then pc + 1 else pc)
         in if targetR < 0 \<or> targetR \<ge> int sz \<or> targetC < 0 \<or> targetC \<ge> int sz then None
            else Some (posToIndex sz targetR targetC))))"

definition moveByDirection :: "state \<Rightarrow> direction \<Rightarrow> state \<Rightarrow> state" where
  "moveByDirection r d s =
     (let blank = indexOf (tiles r) 0 in
      case directionTarget (size_st r) blank d of
        None \<Rightarrow> s
      | Some targetIdx \<Rightarrow> handleTileClick r (nat targetIdx) s)"

datatype key = ArrowUp | ArrowDown | ArrowLeft | ArrowRight | OtherKey

fun keyMap :: "key \<Rightarrow> direction option" where
  "keyMap ArrowUp = Some Down"
| "keyMap ArrowDown = Some Up"
| "keyMap ArrowLeft = Some Right"
| "keyMap ArrowRight = Some Left"
| "keyMap OtherKey = None"

definition onKey :: "state \<Rightarrow> key \<Rightarrow> state \<Rightarrow> state" where
  "onKey r e s =
     (if \<not> running r then s
      else (case keyMap e of Some d \<Rightarrow> moveByDirection r d s | None \<Rightarrow> s))"

text \<open>\<open>resetBoard\<close>, \<open>startGame\<close> and \<open>restart\<close> shuffle, so they may not return.\<close>

definition resetBoard ::
  "(nat \<Rightarrow> rat) \<Rightarrow> nat \<Rightarrow> state \<times> nat \<Rightarrow> (state \<times> nat) option" where
  "resetBoard rnd n sk =
     (case sk of (s, k) \<Rightarrow>
        (let s1 = s\<lparr>moves := 0, time_st := 0, message := NoMessage, running := False\<rparr>
         in case shuffleToSolvable rnd n k of
              None \<Rightarrow> None
            | Some (arr, k') \<Rightarrow> Some (s1\<lparr>tiles := arr, tilesId := tilesId s1 + 1\<rparr>, k')))"

definition startGame ::
  "state \<Rightarrow> (nat \<Rightarrow> rat) \<Rightarrow> state \<times> nat \<Rightarrow> (state \<times> nat) option" where
  "startGame r rnd sk =
     (case sk of (s, k) \<Rightarrow>
        (case (if isSolved (tiles r)
               then (case shuffleToSolvable rnd (size_st r) k of
                       None \<Rightarrow> None
                     | Some (arr, k') \<Rightarrow> Some (s\<lparr>tiles := arr, tilesId := tilesId s + 1\<rparr>, k'))
               else Some (s, k)) of
           None \<Rightarrow> None
         | Some (s1, k1) \<Rightarrow>
             Some (s1\<lparr>moves := 0, time_st := 0, message := NoMessage, running := True\<rparr>, k1)))"

definition restart ::
  "state \<Rightarrow> (nat \<Rightarrow> rat) \<Rightarrow> state \<times> nat \<Rightarrow> (state \<times> nat) option" where
  "restart r rnd sk =
     (case resetBoard rnd (size_st r) sk of
        None \<Rightarrow> None
      | Some (s1, k1) \<Rightarrow> Some (s1\<lparr>running := True\<rparr>, k1))"

subsection \<open>The component as a transition system\<close>

text \<open>
  Events are handled one at a time, and the component has rendered again before the
  next one. \<open>cur\<close> is the state it holds. \<open>keyRender\<close> is the render whose closure
  the \<open>keydown\<close> listener is: the effect that installs the listener has the
  dependency list \<open>[tiles, running]\<close>, so the listener is replaced by the one of the
  latest render only after an event that stored a new \<open>tiles\<close> array or changed
  \<open>running\<close>. \<open>randomCalls\<close> counts the calls of \<open>Math.random()\<close>.
\<close>

record engine =
  cur :: state
  keyRender :: state
  randomCalls :: nat

datatype event = TileClick nat | KeyDown key | Start | Restart | SetSize nat | Tick

definition commit :: "engine \<Rightarrow> state \<times> nat \<Rightarrow> engine" where
  "commit e sk =
     (case sk of (s', k') \<Rightarrow>
        \<lparr>cur = s',
         keyRender = (if tilesId s' \<noteq> tilesId (cur e) \<or> running s' \<noteq> running (cur e)
                      then s' else keyRender e),
         randomCalls = k'\<rparr>)"

text \<open>
  A tile button exists for every index of \<open>tiles\<close> and for no other. \<open>setSize\<close> with
  the size the component has does not render again; with another size the effect
  \<open>resetBoard(size)\<close> runs after the render. The timer ticks only while \<open>running\<close>.
\<close>

definition step :: "(nat \<Rightarrow> rat) \<Rightarrow> event \<Rightarrow> engine \<Rightarrow> engine option" where
  "step rnd ev e =
     (let s = cur e; k = randomCalls e in
      case ev of
        TileClick i \<Rightarrow>
          if i < length (tiles s) then Some (commit e (handleTileClick s i s, k)) else Some e
      | KeyDown ky \<Rightarrow> Some (commit e (onKey (keyRender e) ky s, k))
      | Start \<Rightarrow> map_option (commit e) (startGame s rnd (s, k))
      | Restart \<Rightarrow> map_option (commit e) (restart s rnd (s, k))
      | SetSize n \<Rightarrow>
          if n = size_st s then Some e
          else map_option (commit e) (resetBoard rnd n (s\<lparr>size_st := n\<rparr>, k))
      | Tick \<Rightarrow> Some (commit e (if running s then s\<lparr>time_st := time_st s + 1\<rparr> else s, k)))"

fun run :: "(nat \<Rightarrow> rat) \<Rightarrow> event list \<Rightarrow> engine \<Rightarrow> engine option" where
  "run rnd [] e = Some e"
| "run rnd (ev # evs) e = (case step rnd ev e of None \<Rightarrow> None | Some e' \<Rightarrow> run rnd evs e')"

text \<open>Mounting the component: the first render, then the effect \<open>resetBoard(size)\<close>.\<close>

definition mount :: "(nat \<Rightarrow> rat) \<Rightarrow> engine option" where
  "mount rnd =
     map_option (\<lambda>(s, k). \<lparr>cur = s, keyRender = s, randomCalls = k\<rparr>)
       (resetBoard rnd (size_st initial_state) (initial_state, 0))"

inductive reachable :: "(nat \<Rightarrow> rat) \<Rightarrow> engine \<Rightarrow> bool" for rnd where
  mounted: "mount rnd = Some e \<Longrightarrow> reachable rnd e"
| stepped: "reachable rnd e \<Longrightarrow> step rnd ev e = Some e' \<Longrightarrow> reachable rnd e'"

subsection \<open>The vocabulary of the specification\<close>

text \<open>A well-formed board of dimension \<open>n\<close>: a permutation of \<open>0 .. n*n-1\<close>.\<close>

definition wf_board :: "nat \<Rightarrow> nat list \<Rightarrow> bool" where
  "wf_board n arr = (distinct arr \<and> set arr = {0 ..< n * n})"

text \<open>
  The inversions of a sequence: the pairs of positions \<open>i < j\<close> where the value at
  \<open>i\<close> exceeds the value at \<open>j\<close>.
\<close>

definition inversions_spec :: "nat list \<Rightarrow> nat" where
  "inversions_spec nums = card {(i, j). i < j \<and> j < length nums \<and> nums ! i > nums ! j}"

text \<open>The decision rule of the specification, from the inversion count and the
  1-based row of the blank counted from the top.\<close>

definition solvable_rule :: "nat \<Rightarrow> nat \<Rightarrow> int \<Rightarrow> bool" where
  "solvable_rule n invs blankRowFromTop =
     (if odd n then even invs
      else (let rowFromBottom = int n - blankRowFromTop + 1
            in (even rowFromBottom \<and> odd invs) \<or> (odd rowFromBottom \<and> even invs)))"

text \<open>The Manhattan distance of the cells of two indices: index \<open>i\<close> is the cell
  \<open>(i div n, i mod n)\<close>.\<close>

definition manhattan :: "nat \<Rightarrow> nat \<Rightarrow> nat \<Rightarrow> int" where
  "manhattan n i b = \<bar>int (i div n) - int (b div n)\<bar> + \<bar>int (i mod n) - int (b mod n)\<bar>"

text \<open>What the loop of \<open>shuffleToSolvable\<close> accepts: a solvable board that is not solved.\<close>

definition accepted :: "nat \<Rightarrow> nat list \<Rightarrow> bool" where
  "accepted n arr = (isSolvable arr n \<and> \<not> isSolved arr)"



text \<open>
  The state the key listener's render and the current state agree on: the listener is
  replaced whenever \<open>tiles\<close> or \<open>running\<close> changes, and \<open>size\<close> and \<open>highScores\<close>
  only change together with one of them.
\<close>

definition coherent :: "engine \<Rightarrow> bool" where
  "coherent e =
     (tiles (keyRender e) = tiles (cur e) \<and> tilesId (keyRender e) = tilesId (cur e)
      \<and> running (keyRender e) = running (cur e) \<and> size_st (keyRender e) = size_st (cur e)
      \<and> highScores (keyRender e) = highScores (cur e))"

subsection \<open>Concrete random sources and runs\<close>




text \<open>
  A random source for a session: the shuffle at mounting (size 4, fifteen draws) gives
  \<open>board4\<close>, and the next shuffle for size 3 (eight draws) gives \<open>[1,2,3,4,5,6,0,7,8]\<close>.
\<close>

definition draws_bug :: "rat list" where
  "draws_bug =
     [15/16, 14/15, 13/14, 12/13, 11/12, 10/11, 9/10, 8/9, 7/8, 6/7, 5/6, 4/5, 3/4, 0, 0,
      7/9, 3/4, 6/7, 5/6, 4/5, 3/4, 2/3, 1/2]"

definition rnd_bug :: "nat \<Rightarrow> rat" where
  "rnd_bug k = (if k < length draws_bug then draws_bug ! k else 0)"

definition board4 :: "nat list" where
  "board4 = [2, 3, 1, 4, 5, 6, 7, 8, 9, 10, 11, 12, 13, 14, 15, 0]"

definition engine_mounted :: engine where
  "engine_mounted =
     \<lparr>cur = initial_state\<lparr>tiles := board4, tilesId := 1\<rparr>,
      keyRender = initial_state\<lparr>tiles := board4, tilesId := 1\<rparr>,
      randomCalls = 15\<rparr>"

text \<open>A state of size 3 with no message and no high score; an engine whose key
  listener is the one of the latest render.\<close>

definition st3 :: "nat list \<Rightarrow> nat \<Rightarrow> nat \<Rightarrow> bool \<Rightarrow> state" where
  "st3 ts tid m rn =
     \<lparr>size_st = 3, tiles = ts, tilesId = tid, moves = m, time_st = 0, running = rn,
      message = NoMessage, highScores = highScores initial_state\<rparr>"

definition fresh :: "state \<Rightarrow> nat \<Rightarrow> engine" where
  "fresh s k = \<lparr>cur = s, keyRender = s, randomCalls = k\<rparr>"

text \<open>What is seen of an engine: the board, the move counter, \<open>running\<close>, the message
  and the high score of the current size. A run of events from mounting.\<close>

definition observe :: "engine \<Rightarrow> nat list \<times> nat \<times> bool \<times> message \<times> jsval" where
  "observe e = (tiles (cur e), moves (cur e), running (cur e), message (cur e),
                highScores (cur e) (size_st (cur e)))"

definition from_mount :: "(nat \<Rightarrow> rat) \<Rightarrow> event list \<Rightarrow> engine option" where
  "from_mount rnd evs = (case mount rnd of None \<Rightarrow> None | Some e \<Rightarrow> run rnd evs e)"

subsection \<open>Moves and reachability\<close>

text \<open>
  A legal move is what an accepted \<open>handleTileClick(i)\<close> does to the board: with the
  blank at \<open>indexOf(0)\<close> and \<open>canSwap(i, blank)\<close>, the values at \<open>i\<close> and at the blank
  are exchanged. \<open>slides\<close> applies a sequence of target indices, and \<open>reach\<close> says that
  some finite sequence of legal moves leads from one board to the other.
\<close>

definition slide :: "nat \<Rightarrow> nat list \<Rightarrow> nat \<Rightarrow> nat list option" where
  "slide n b i =
     (let blank = indexOf b 0 in
      if i < length b \<and> canSwap n (int i) blank then Some (swap i (nat blank) b) else None)"

fun slides :: "nat \<Rightarrow> nat list \<Rightarrow> nat list \<Rightarrow> nat list option" where
  "slides n b [] = Some b"
| "slides n b (i # is) = (case slide n b i of None \<Rightarrow> None | Some b' \<Rightarrow> slides n b' is)"

definition reach :: "nat \<Rightarrow> nat list \<Rightarrow> nat list \<Rightarrow> bool" where
  "reach n b b' = (\<exists>is. slides n b is = Some b')"

subsection \<open>Auxiliary notions for the solvability proof\<close>

text \<open>\<open>cross xs ys\<close> counts the pairs of an element of \<open>xs\<close> and a smaller element of
  \<open>ys\<close>: the inversions between \<open>xs\<close> and \<open>ys\<close> in \<open>xs @ ys\<close>.\<close>

primrec cross :: "nat list \<Rightarrow> nat list \<Rightarrow> nat" where
  "cross [] ys = 0"
| "cross (x # xs) ys = length (filter (\<lambda>y. y < x) ys) + cross xs ys"

text \<open>
  The boustrophedon path through the grid: \<open>sn n k\<close> is the index of the \<open>k\<close>-th cell
  of the path that runs through the even rows from left to right and through the odd
  rows from right to left. \<open>tosnake\<close> reads a board along the path (and, the path
  being an involution on indices, a path reading back into a board).
\<close>

definition sn :: "nat \<Rightarrow> nat \<Rightarrow> nat" where
  "sn n k = (k div n) * n + (if even (k div n) then k mod n else n - 1 - k mod n)"

definition tosnake :: "nat \<Rightarrow> nat list \<Rightarrow> nat list" where
  "tosnake n b = map (\<lambda>k. b ! sn n k) [0 ..< length b]"

text \<open>
  Reachability between readings along the path, and between sequences of tiles: the
  tiles \<open>T\<close> stand for the reading \<open>T @ [0]\<close>, the blank at the end of the path.
\<close>

definition sreach :: "nat \<Rightarrow> nat list \<Rightarrow> nat list \<Rightarrow> bool" where
  "sreach n S S' = reach n (tosnake n S) (tosnake n S')"

definition conn :: "nat \<Rightarrow> nat list \<Rightarrow> nat list \<Rightarrow> bool" where
  "conn n T T' = (wf_board n (T @ [0]) \<and> mset T' = mset T \<and> sreach n (T @ [0]) (T' @ [0]))"

text \<open>A sequence with its last two elements exchanged.\<close>

fun swaplast :: "nat list \<Rightarrow> nat list" where
  "swaplast [x, y] = [y, x]"
| "swaplast (x # y # z # zs) = x # swaplast (y # z # zs)"
| "swaplast xs = xs"

section \<open>Properties\<close>

subsection \<open>isSolved\<close>

lemma isSolved_loop_iff:
  "isSolved_loop arr i \<longleftrightarrow> (\<forall>k. i \<le> k \<and> k < length arr - 1 \<longrightarrow> arr ! k = k + 1)"
proof (induction arr i rule: isSolved_loop.induct)
  case (1 arr i)
  show ?case
  proof (cases "i < length arr - 1")
    case True
    show ?thesis
    proof (cases "arr ! i = i + 1")
      case eq: True
      have "isSolved_loop arr i = isSolved_loop arr (i + 1)"
        using True eq by (subst isSolved_loop.simps) simp
      also have "\<dots> \<longleftrightarrow> (\<forall>k. i + 1 \<le> k \<and> k < length arr - 1 \<longrightarrow> arr ! k = k + 1)"
        using 1 True eq by simp
      also have "\<dots> \<longleftrightarrow> (\<forall>k. i \<le> k \<and> k < length arr - 1 \<longrightarrow> arr ! k = k + 1)"
      proof (intro iffI allI impI)
        fix k assume h: "\<forall>k. i + 1 \<le> k \<and> k < length arr - 1 \<longrightarrow> arr ! k = k + 1"
          and k: "i \<le> k \<and> k < length arr - 1"
        show "arr ! k = k + 1"
        proof (cases "k = i")
          case True then show ?thesis using eq by simp
        next
          case False
          then have "i + 1 \<le> k" using k by simp
          then show ?thesis using h k by blast
        qed
      next
        fix k assume h: "\<forall>k. i \<le> k \<and> k < length arr - 1 \<longrightarrow> arr ! k = k + 1"
          and k: "i + 1 \<le> k \<and> k < length arr - 1"
        then have "i \<le> k \<and> k < length arr - 1" by simp
        then show "arr ! k = k + 1" using h by blast
      qed
      finally show ?thesis .
    next
      case False
      then show ?thesis using True by (subst isSolved_loop.simps) auto
    qed
  next
    case False
    then show ?thesis by (subst isSolved_loop.simps) auto
  qed
qed

lemma isSolved_iff:
  "isSolved arr \<longleftrightarrow>
     arr \<noteq> [] \<and> (\<forall>i < length arr - 1. arr ! i = i + 1) \<and> arr ! (length arr - 1) = 0"
  by (auto simp: isSolved_def isSolved_loop_iff)

lemma makeSolved_nth:
  "i < n * n \<Longrightarrow> makeSolved n ! i = (if i = n * n - 1 then 0 else i + 1)"
proof -
  assume a: "i < n * n"
  have "makeSolved n ! i = (i + 1) mod (n * n)"
    using a by (simp add: makeSolved_def)
  also have "\<dots> = (if i = n * n - 1 then 0 else i + 1)"
  proof (cases "i = n * n - 1")
    case True
    then have "i + 1 = n * n" using a by simp
    then show ?thesis using True by simp
  next
    case False
    then have "i + 1 < n * n" using a by simp
    then show ?thesis using False by simp
  qed
  finally show ?thesis .
qed

lemma length_makeSolved: "length (makeSolved n) = n * n"
  by (simp add: makeSolved_def)

lemma isSolved_makeSolved_iff:
  assumes "0 < n" "length arr = n * n"
  shows "isSolved arr \<longleftrightarrow> arr = makeSolved n"
proof -
  have pos: "0 < n * n" using assms by simp
  show ?thesis
  proof
    assume s: "isSolved arr"
    show "arr = makeSolved n"
    proof (rule nth_equalityI)
      show "length arr = length (makeSolved n)" using assms by (simp add: length_makeSolved)
    next
      fix i assume "i < length arr"
      then show "arr ! i = makeSolved n ! i"
        using s assms pos by (auto simp: isSolved_iff makeSolved_nth)
    qed
  next
    assume "arr = makeSolved n"
    moreover have "makeSolved n \<noteq> []"
      using pos length_makeSolved[of n] by auto
    ultimately show "isSolved arr"
      using pos by (auto simp: isSolved_iff makeSolved_nth length_makeSolved)
  qed
qed

text \<open>
  Claim C5. \<open>isSolved(board)\<close> is true iff the value at every index \<open>i\<close> except
  the last is \<open>i + 1\<close> and the value at the last index is \<open>0\<close>; for a board of
  dimension \<open>n\<close> this is the board \<open>makeSolved n\<close>, the canonical solved sequence.
\<close>

theorem isSolved_correct:
  "(isSolved arr \<longleftrightarrow>
      arr \<noteq> [] \<and> (\<forall>i < length arr - 1. arr ! i = i + 1) \<and> arr ! (length arr - 1) = 0)
   \<and> (0 < n \<and> length arr = n * n \<longrightarrow> (isSolved arr \<longleftrightarrow> arr = makeSolved n))"
  using isSolved_iff isSolved_makeSolved_iff by blast

theorem isSolved_correct_witness:
  "0 < (2::nat) \<and> length [1, 2, 3, 0::nat] = 2 * 2
   \<and> (isSolved [1, 2, 3, 0] \<longleftrightarrow> [1, 2, 3, 0] = makeSolved 2)
   \<and> isSolved [1, 2, 3, 0]"
proof -
  have s: "isSolved [1, 2, 3, 0]"
    by (simp add: isSolved_def isSolved_loop.simps)
  have l: "0 < (2::nat) \<and> length [1, 2, 3, 0::nat] = 2 * 2" by simp
  then have "isSolved [1, 2, 3, 0] \<longleftrightarrow> [1, 2, 3, 0] = makeSolved 2"
    using isSolved_correct [of "[1, 2, 3, 0]" 2] by blast
  then show ?thesis using s l by blast
qed

subsection \<open>inversionCount and isSolvable\<close>

lemma inversion_inner_eq:
  "inversion_inner nums i j c = c + card {k. j \<le> k \<and> k < length nums \<and> nums ! i > nums ! k}"
proof (induction nums i j c rule: inversion_inner.induct)
  case (1 nums i j c)
  show ?case
  proof (cases "j < length nums")
    case True
    let ?S = "{k. j \<le> k \<and> k < length nums \<and> nums ! i > nums ! k}"
    let ?T = "{k. j + 1 \<le> k \<and> k < length nums \<and> nums ! i > nums ! k}"
    have fin: "finite ?T" by simp
    have split: "?S = (if nums ! i > nums ! j then insert j ?T else ?T)"
      using True by (auto simp: le_eq_less_or_eq Suc_le_eq)
    have "j \<notin> ?T" by simp
    then have "card ?S = (if nums ! i > nums ! j then 1 else 0) + card ?T"
      using fin split by (simp del: One_nat_def)
    moreover have "inversion_inner nums i j c =
        inversion_inner nums i (j + 1) (if nums ! i > nums ! j then c + 1 else c)"
      using True by (subst inversion_inner.simps) simp
    ultimately show ?thesis using 1[OF True] by simp
  next
    case False
    then have "{k. j \<le> k \<and> k < length nums \<and> nums ! i > nums ! k} = {}" by auto
    then show ?thesis using False by (subst inversion_inner.simps) simp
  qed
qed

lemma inversion_outer_eq:
  "inversion_outer nums i c =
     c + card {(a, b). i \<le> a \<and> a < b \<and> b < length nums \<and> nums ! a > nums ! b}"
proof (induction nums i c rule: inversion_outer.induct)
  case (1 nums i c)
  let ?P = "\<lambda>m. {(a, b). m \<le> a \<and> a < b \<and> b < length nums \<and> nums ! a > nums ! b}"
  have finP: "finite (?P m)" for m
    by (rule finite_subset[of _ "{..<length nums} \<times> {..<length nums}"]) auto
  show ?case
  proof (cases "i < length nums")
    case True
    let ?R = "{k. i + 1 \<le> k \<and> k < length nums \<and> nums ! i > nums ! k}"
    have split: "?P i = (Pair i ` ?R) \<union> ?P (i + 1)"
      by (auto simp: le_eq_less_or_eq Suc_le_eq)
    have disj: "(Pair i ` ?R) \<inter> ?P (i + 1) = {}" by auto
    have "card (?P i) = card (Pair i ` ?R) + card (?P (i + 1))"
      unfolding split by (rule card_Un_disjoint) (use finP disj in auto)
    moreover have "card (Pair i ` ?R) = card ?R"
      by (rule card_image) (simp add: inj_on_def)
    moreover have "inversion_outer nums i c =
        inversion_outer nums (i + 1) (inversion_inner nums i (i + 1) c)"
      using True by (subst inversion_outer.simps) simp
    ultimately show ?thesis using 1[OF True] by (simp add: inversion_inner_eq)
  next
    case False
    then have "?P i = {}" by auto
    then have "card (?P i) = 0" by (simp only: card.empty)
    then show ?thesis using False by (subst inversion_outer.simps) simp
  qed
qed

lemma inversionCount_spec:
  "inversionCount arr = inversions_spec (filter (\<lambda>v. v \<noteq> 0) arr)"
  by (simp add: inversionCount_def inversions_spec_def inversion_outer_eq)

lemma indexOf_unique:
  "distinct arr \<Longrightarrow> b < length arr \<Longrightarrow> arr ! b = v \<Longrightarrow> indexOf arr v = int b"
proof (induction arr arbitrary: b)
  case Nil
  then show ?case by simp
next
  case (Cons x xs)
  show ?case
  proof (cases b)
    case 0
    then show ?thesis using Cons.prems by simp
  next
    case (Suc b')
    then have "x \<noteq> v" using Cons.prems by auto
    moreover have "indexOf xs v = int b'" using Cons Suc by auto
    ultimately show ?thesis using Suc by (simp add: Let_def)
  qed
qed

text \<open>
  Claim C2. For a well-formed board with the blank at index \<open>b\<close> and \<open>n \<ge> 2\<close>,
  \<open>isSolvable(board, n)\<close> is the decision rule of the specification applied to the
  number of inversions of the sequence without the blank and to the 1-based row
  \<open>b div n + 1\<close> of the blank.
\<close>

theorem isSolvable_rule:
  assumes "2 \<le> n" "wf_board n arr" "b < length arr" "arr ! b = 0"
  shows "isSolvable arr n =
     solvable_rule n (inversions_spec (filter (\<lambda>v. v \<noteq> 0) arr)) (int (b div n) + 1)"
proof -
  have idx: "indexOf arr 0 = int b"
    using assms by (auto simp: wf_board_def intro: indexOf_unique)
  have dv: "int b div int n = int (b div n)" by (simp add: zdiv_int)
  show ?thesis
  proof (cases "odd n")
    case True
    then have "n mod 2 = 1" by (simp add: odd_iff_mod_2_eq_one)
    then show ?thesis using True
      by (simp add: isSolvable_def solvable_rule_def inversionCount_spec even_iff_mod_2_eq_zero)
  next
    case False
    then have "n mod 2 \<noteq> 1" "n \<noteq> 0" using assms by (auto simp: odd_iff_mod_2_eq_one)
    then show ?thesis using False
      by (auto simp: isSolvable_def solvable_rule_def inversionCount_spec idx dv Let_def
          even_iff_mod_2_eq_zero odd_iff_mod_2_eq_one)
  qed
qed

theorem isSolvable_rule_witness:
  "2 \<le> (2::nat) \<and> wf_board 2 [1, 0, 3, 2] \<and> (1::nat) < length [1, 0, 3, 2::nat]
   \<and> [1, 0, 3, 2::nat] ! 1 = 0
   \<and> isSolvable [1, 0, 3, 2] 2 =
       solvable_rule 2 (inversions_spec (filter (\<lambda>v. v \<noteq> 0) [1, 0, 3, 2])) (int (1 div 2) + 1)
   \<and> isSolvable [1, 0, 3, 2] 2"
proof -
  have wf: "wf_board 2 [1, 0, 3, 2]"
    by (auto simp: wf_board_def)
  have s: "isSolvable [1, 0, 3, 2] 2"
    by (simp add: isSolvable_def inversionCount_def inversion_outer.simps
        inversion_inner.simps Let_def)
  show ?thesis
    using isSolvable_rule [of 2 "[1, 0, 3, 2]" 1] wf s by simp
qed

subsection \<open>handleTileClick\<close>

lemma indexOf_range: "indexOf arr v = - 1 \<or> (0 \<le> indexOf arr v \<and> indexOf arr v < int (length arr))"
  by (induction arr) (auto simp: Let_def)

lemma indexToPos_nat: "0 < n \<Longrightarrow> indexToPos n (int i) = (int (i div n), int (i mod n))"
  by (simp add: indexToPos_def js_rem_def zdiv_int zmod_int)

lemma canSwap_manhattan: "0 < n \<Longrightarrow> canSwap n (int i) (int b) = (manhattan n i b = 1)"
  by (simp add: canSwap_def indexToPos_nat manhattan_def Let_def)

lemma onWin_tiles [simp]: "tiles (onWin r s) = tiles s"
  by (simp add: onWin_def Let_def)

lemma onWin_moves [simp]: "moves (onWin r s) = moves s"
  by (simp add: onWin_def Let_def)

lemma onWin_running [simp]: "running (onWin r s) = False"
  by (simp add: onWin_def Let_def)

lemma wf_board_length: "wf_board n arr \<Longrightarrow> length arr = n * n"
  using distinct_card[of arr] by (simp add: wf_board_def)

lemma swap_nth:
  "i < length arr \<Longrightarrow> j < length arr \<Longrightarrow> k < length arr \<Longrightarrow>
   swap i j arr ! k = (if k = j then arr ! i else if k = i then arr ! j else arr ! k)"
  by (simp add: swap_def nth_list_update)

lemma length_swap [simp]: "length (swap i j arr) = length arr"
  by (simp add: swap_def)

text \<open>
  Claim C3. While running, on a well-formed board with the blank at index \<open>b\<close>, a
  click on the tile at index \<open>i\<close> is accepted iff the Manhattan distance of the cells
  of \<open>i\<close> and \<open>b\<close> is \<open>1\<close>. An accepted click exchanges the values at \<open>i\<close> and \<open>b\<close>,
  leaves every other position as it was and adds \<open>1\<close> to the move counter; a click
  that is not accepted changes nothing.
\<close>

theorem handleTileClick_move:
  assumes run: "running s"
    and wf: "wf_board (size_st s) (tiles s)"
    and b: "b < length (tiles s)" "tiles s ! b = 0"
    and i: "i < length (tiles s)"
  shows "(if manhattan (size_st s) i b = 1
          then tiles (handleTileClick s i s) ! i = tiles s ! b
             \<and> tiles (handleTileClick s i s) ! b = tiles s ! i
             \<and> (\<forall>k < length (tiles s). k \<noteq> i \<and> k \<noteq> b \<longrightarrow>
                   tiles (handleTileClick s i s) ! k = tiles s ! k)
             \<and> length (tiles (handleTileClick s i s)) = length (tiles s)
             \<and> moves (handleTileClick s i s) = moves s + 1
          else handleTileClick s i s = s)"
proof -
  let ?n = "size_st s"
  have len: "length (tiles s) = ?n * ?n" using wf by (rule wf_board_length)
  then have npos: "0 < ?n" using b by (cases "?n = 0") auto
  have idx: "indexOf (tiles s) 0 = int b"
    using wf b by (auto simp: wf_board_def intro: indexOf_unique)
  have cs: "canSwap ?n (int i) (indexOf (tiles s) 0) = (manhattan ?n i b = 1)"
    using npos by (simp add: idx canSwap_manhattan)
  show ?thesis
  proof (cases "manhattan ?n i b = 1")
    case True
    then have ne: "i \<noteq> b" by (auto simp: manhattan_def)
    have t: "tiles (handleTileClick s i s) = swap i b (tiles s)"
      and m: "moves (handleTileClick s i s) = moves s + 1"
      using run cs True by (simp_all add: handleTileClick_def idx Let_def)
    show ?thesis using True ne b i by (simp add: t m swap_nth)
  next
    case False
    then show ?thesis using run cs by (simp add: handleTileClick_def Let_def)
  qed
qed

theorem handleTileClick_move_witness:
  "manhattan 2 0 1 = 1
   \<and> tiles (handleTileClick
        (initial_state\<lparr>size_st := 2, tiles := [1, 0, 3, 2], running := True\<rparr>) 0
        (initial_state\<lparr>size_st := 2, tiles := [1, 0, 3, 2], running := True\<rparr>)) ! 0 = 0
   \<and> moves (handleTileClick
        (initial_state\<lparr>size_st := 2, tiles := [1, 0, 3, 2], running := True\<rparr>) 0
        (initial_state\<lparr>size_st := 2, tiles := [1, 0, 3, 2], running := True\<rparr>)) = 1"
proof -
  have wf: "wf_board 2 [1, 0, 3, 2]"
    by (auto simp: wf_board_def)
  have m: "manhattan 2 0 1 = 1"
    by (simp add: manhattan_def)
  show ?thesis
    using handleTileClick_move
      [of "initial_state\<lparr>size_st := 2, tiles := [1, 0, 3, 2], running := True\<rparr>" 1 0] wf m
    by (simp add: initial_state_def)
qed

subsection \<open>moveByDirection and onKey\<close>

lemma directionTarget_nat:
  assumes "0 < n" "b < n * n"
  shows "directionTarget n (int b) Down = (if b div n + 1 < n then Some (int ((b div n + 1) * n + b mod n)) else None)"
    and "directionTarget n (int b) Up = (if 0 < b div n then Some (int ((b div n - 1) * n + b mod n)) else None)"
    and "directionTarget n (int b) Right = (if b mod n + 1 < n then Some (int (b div n * n + (b mod n + 1))) else None)"
    and "directionTarget n (int b) Left = (if 0 < b mod n then Some (int (b div n * n + (b mod n - 1))) else None)"
proof -
  have r: "b div n < n" using assms by (simp add: less_mult_imp_div_less)
  have c: "b mod n < n" using assms by simp
  have n0: "n \<noteq> 0" using assms by simp
  have rr: "\<not> int n \<le> int (b div n)" "\<not> int (b div n) < 0" using r by simp_all
  have cc: "\<not> int n \<le> int (b mod n)" "\<not> int (b mod n) < 0" using c by simp_all
  have pos: "indexToPos n (int b) = (int (b div n), int (b mod n))"
    using assms by (simp add: indexToPos_nat)
  have d1: "int n \<le> int (b div n) + 1 \<longleftrightarrow> \<not> b div n + 1 < n" by linarith
  have d2: "int (b div n) - 1 < 0 \<longleftrightarrow> \<not> 0 < b div n" by linarith
  have d3: "int n \<le> int (b mod n) + 1 \<longleftrightarrow> \<not> b mod n + 1 < n" by linarith
  have d4: "int (b mod n) - 1 < 0 \<longleftrightarrow> \<not> 0 < b mod n" by linarith
  have e1: "(int (b div n) + 1) * int n + int (b mod n) = int ((b div n + 1) * n + b mod n)"
    unfolding of_nat_add of_nat_mult by simp
  have e2: "0 < b div n \<Longrightarrow> (int (b div n) - 1) * int n + int (b mod n) = int ((b div n - 1) * n + b mod n)"
    unfolding of_nat_add of_nat_mult by (simp add: of_nat_diff)
  have e3: "int (b div n) * int n + (int (b mod n) + 1) = int (b div n * n + (b mod n + 1))"
    unfolding of_nat_add of_nat_mult by simp
  have e4: "0 < b mod n \<Longrightarrow> int (b div n) * int n + (int (b mod n) - 1) = int (b div n * n + (b mod n - 1))"
    unfolding of_nat_add of_nat_mult by (simp add: of_nat_diff)
  have A: "directionTarget n (int b) Down =
      (if int n \<le> int (b div n) + 1 then None else Some ((int (b div n) + 1) * int n + int (b mod n)))"
    using n0 rr cc by (simp add: directionTarget_def pos posToIndex_def Let_def)
  show "directionTarget n (int b) Down = (if b div n + 1 < n then Some (int ((b div n + 1) * n + b mod n)) else None)"
    unfolding A d1 e1 by simp
  have B: "directionTarget n (int b) Up =
      (if int (b div n) - 1 < 0 then None else Some ((int (b div n) - 1) * int n + int (b mod n)))"
    using n0 rr cc by (simp add: directionTarget_def pos posToIndex_def Let_def)
  show "directionTarget n (int b) Up = (if 0 < b div n then Some (int ((b div n - 1) * n + b mod n)) else None)"
    unfolding B d2 using e2 by simp
  have C: "directionTarget n (int b) Right =
      (if int n \<le> int (b mod n) + 1 then None else Some (int (b div n) * int n + (int (b mod n) + 1)))"
    using n0 rr cc by (simp add: directionTarget_def pos posToIndex_def Let_def)
  show "directionTarget n (int b) Right = (if b mod n + 1 < n then Some (int (b div n * n + (b mod n + 1))) else None)"
    unfolding C d3 e3 by simp
  have D: "directionTarget n (int b) Left =
      (if int (b mod n) - 1 < 0 then None else Some (int (b div n) * int n + (int (b mod n) - 1)))"
    using n0 rr cc by (simp add: directionTarget_def pos posToIndex_def Let_def)
  show "directionTarget n (int b) Left = (if 0 < b mod n then Some (int (b div n * n + (b mod n - 1))) else None)"
    unfolding D d4 using e4 by simp
qed

lemma moveByDirection_target:
  assumes "directionTarget (size_st r) (indexOf (tiles r) 0) d = (if c then Some (int t) else None)"
  shows "moveByDirection r d s = (if c then handleTileClick r t s else s)"
  using assms by (simp add: moveByDirection_def)

text \<open>
  Claim C7. While running, on a well-formed board with the blank at index \<open>b\<close>, that
  is in row \<open>b div n\<close> and column \<open>b mod n\<close>: the key \<open>ArrowUp\<close> makes the cell below
  the blank the target of \<open>handleTileClick\<close>, \<open>ArrowDown\<close> the cell above it,
  \<open>ArrowLeft\<close> the cell right of it and \<open>ArrowRight\<close> the cell left of it; where
  that cell is outside the grid the key changes nothing.
\<close>

theorem onKey_targets:
  assumes run: "running r"
    and wf: "wf_board n (tiles r)" and n: "n = size_st r"
    and b: "b < length (tiles r)" "tiles r ! b = 0"
  shows "onKey r ArrowUp s =
           (if b div n + 1 < n then handleTileClick r ((b div n + 1) * n + b mod n) s else s)
       \<and> onKey r ArrowDown s =
           (if 0 < b div n then handleTileClick r ((b div n - 1) * n + b mod n) s else s)
       \<and> onKey r ArrowLeft s =
           (if b mod n + 1 < n then handleTileClick r (b div n * n + (b mod n + 1)) s else s)
       \<and> onKey r ArrowRight s =
           (if 0 < b mod n then handleTileClick r (b div n * n + (b mod n - 1)) s else s)"
proof -
  have len: "length (tiles r) = n * n" using wf by (rule wf_board_length)
  then have npos: "0 < n" using b by (cases "n = 0") auto
  have bn: "b < n * n" using b len by simp
  have idx: "indexOf (tiles r) 0 = int b"
    using wf b by (auto simp: wf_board_def intro: indexOf_unique)
  note dt = directionTarget_nat[OF npos bn, unfolded n, folded idx]
  have k: "onKey r e s = (case keyMap e of Some d \<Rightarrow> moveByDirection r d s | None \<Rightarrow> s)" for e
    using run by (simp add: onKey_def)
  show ?thesis
    unfolding k keyMap.simps option.case
    unfolding moveByDirection_target[OF dt(1)] moveByDirection_target[OF dt(2)]
      moveByDirection_target[OF dt(3)] moveByDirection_target[OF dt(4)] n
    by simp
qed

theorem onKey_targets_witness:
  "onKey (initial_state\<lparr>size_st := 2, tiles := [1, 0, 3, 2], running := True\<rparr>) ArrowUp initial_state
     = handleTileClick
         (initial_state\<lparr>size_st := 2, tiles := [1, 0, 3, 2], running := True\<rparr>) 3 initial_state
   \<and> onKey (initial_state\<lparr>size_st := 2, tiles := [1, 0, 3, 2], running := True\<rparr>) ArrowDown
         initial_state = initial_state
   \<and> onKey (initial_state\<lparr>size_st := 2, tiles := [1, 0, 3, 2], running := True\<rparr>) ArrowLeft
         initial_state = initial_state
   \<and> onKey (initial_state\<lparr>size_st := 2, tiles := [1, 0, 3, 2], running := True\<rparr>) ArrowRight
         initial_state
     = handleTileClick
         (initial_state\<lparr>size_st := 2, tiles := [1, 0, 3, 2], running := True\<rparr>) 0 initial_state"
proof -
  have wf: "wf_board 2 [1, 0, 3, 2]"
    by (auto simp: wf_board_def)
  show ?thesis
    using onKey_targets
      [of "initial_state\<lparr>size_st := 2, tiles := [1, 0, 3, 2], running := True\<rparr>" 2 1
          initial_state] wf
    by simp
qed

text \<open>
  Claim C8. With \<open>n = 3\<close>, the board \<open>[1,2,3,4,5,6,0,7,8]\<close>, no move made and the game
  running, \<open>moveByDirection("up")\<close> targets index \<open>3\<close>, the cell above the blank, and
  gives the board \<open>[1,2,3,0,5,6,4,7,8]\<close> with the move counter \<open>1\<close>; that board is not
  solved.
\<close>

lemma eval_idx6: "indexOf [1, 2, 3, 4, 5, 6, 0, 7, 8] 0 = 6"
  by (simp add: Let_def)

theorem moveByDirection_up_example:
  "directionTarget 3 (indexOf [1, 2, 3, 4, 5, 6, 0, 7, 8] 0) Up = Some 3
   \<and> moveByDirection
        (s\<lparr>size_st := 3, tiles := [1, 2, 3, 4, 5, 6, 0, 7, 8], moves := 0, running := True\<rparr>) Up
        (s\<lparr>size_st := 3, tiles := [1, 2, 3, 4, 5, 6, 0, 7, 8], moves := 0, running := True\<rparr>)
      = s\<lparr>size_st := 3, tiles := [1, 2, 3, 0, 5, 6, 4, 7, 8], tilesId := tilesId s + 1,
           moves := 1, running := True\<rparr>
   \<and> \<not> isSolved [1, 2, 3, 0, 5, 6, 4, 7, 8]"
proof -
  have t: "directionTarget 3 6 Up = Some 3"
    by (simp add: directionTarget_def indexToPos_def js_rem_def posToIndex_def Let_def)
  have c: "canSwap 3 3 6"
    by (simp add: canSwap_def indexToPos_def js_rem_def Let_def)
  have sw: "swap 3 6 [1, 2, 3, 4, 5, 6, 0, 7, 8] = [1, 2, 3, 0, 5, 6, 4, 7, 8::nat]"
    by (simp add: swap_def)
  have ns: "\<not> isSolved [1, 2, 3, 0, 5, 6, 4, 7, 8]"
    by (simp add: isSolved_def isSolved_loop.simps)
  show ?thesis
    using t c sw ns
    by (simp add: moveByDirection_def handleTileClick_def eval_idx6 Let_def)
qed

subsection \<open>shuffleToSolvable\<close>

lemma floor_draw:
  assumes "0 \<le> (r::rat)" "r < 1"
  shows "nat \<lfloor>r * of_nat (i + 1)\<rfloor> \<le> i"
proof -
  have "r * of_nat (i + 1) < of_nat (i + 1)"
    using assms by (simp add: mult_less_cancel_right1 del: of_nat_add of_nat_Suc)
  then have "\<lfloor>r * of_nat (i + 1)\<rfloor> < int (i + 1)"
    by (simp add: floor_less_iff del: of_nat_add of_nat_Suc)
  then show ?thesis by simp
qed

lemma mset_swap': "i < length arr \<Longrightarrow> j < length arr \<Longrightarrow> mset (swap i j arr) = mset arr"
  unfolding swap_def by (simp add: mset_swap)

lemma fisherYates_mset:
  "random_ok rnd \<Longrightarrow> i < length arr \<or> i = 0 \<Longrightarrow>
   mset (fst (fisherYates rnd k i arr)) = mset arr \<and> snd (fisherYates rnd k i arr) = k + i"
proof (induction rnd k i arr rule: fisherYates.induct)
  case (1 rnd k i arr)
  show ?case
  proof (cases "i > 0")
    case True
    let ?j = "nat \<lfloor>rnd k * of_nat (i + 1)\<rfloor>"
    have j: "?j \<le> i" using "1.prems"(1) by (intro floor_draw) (auto simp: random_ok_def)
    have il: "i < length arr" using True "1.prems" by auto
    have ms: "mset (swap i ?j arr) = mset arr" using il j by (intro mset_swap') auto
    have IH: "mset (fst (fisherYates rnd (k + 1) (i - 1) (swap i ?j arr))) = mset (swap i ?j arr)
       \<and> snd (fisherYates rnd (k + 1) (i - 1) (swap i ?j arr)) = k + 1 + (i - 1)"
    proof -
      have "i - 1 < length arr" using il by arith
      then have pre: "i - 1 < length (swap i ?j arr) \<or> i - 1 = 0" by simp
      show ?thesis using "1.IH"[OF True refl "1.prems"(1) pre] by simp
    qed
    have u: "fisherYates rnd k i arr = fisherYates rnd (k + 1) (i - 1) (swap i ?j arr)"
      using True by (subst fisherYates.simps) (simp add: Let_def)
    show ?thesis unfolding u using IH ms True by simp
  next
    case False
    then show ?thesis by (subst (1 2) fisherYates.simps) simp
  qed
qed

lemma makeSolved_eq: "0 < n \<Longrightarrow> makeSolved n = map Suc [0 ..< n * n - 1] @ [0]"
proof (rule nth_equalityI)
  assume n: "0 < n"
  then have pos: "0 < n * n" by simp
  then show "length (makeSolved n) = length (map Suc [0 ..< n * n - 1] @ [0])"
    by (simp add: length_makeSolved)
  fix i assume "i < length (makeSolved n)"
  then have i: "i < n * n" by (simp add: length_makeSolved)
  show "makeSolved n ! i = (map Suc [0 ..< n * n - 1] @ [0]) ! i"
  proof (cases "i = n * n - 1")
    case True
    then show ?thesis using i by (simp add: makeSolved_nth nth_append)
  next
    case False
    then have "i < n * n - 1" using i by simp
    then show ?thesis using i False by (simp add: makeSolved_nth nth_append)
  qed
qed

lemma wf_makeSolved: "wf_board n (makeSolved n)"
proof (cases "n = 0")
  case True
  then show ?thesis by (simp add: wf_board_def makeSolved_def)
next
  case False
  then have n: "0 < n" by simp
  then have pos: "0 < n * n" by simp
  have d: "distinct (makeSolved n)"
    unfolding makeSolved_eq[OF n] by (auto simp: distinct_map)
  have "set (makeSolved n) = insert 0 (Suc ` {0 ..< n * n - 1})"
    unfolding makeSolved_eq[OF n] by auto
  also have "\<dots> = {0 ..< n * n}"
  proof (intro equalityI subsetI)
    fix x assume "x \<in> insert 0 (Suc ` {0 ..< n * n - 1})"
    then show "x \<in> {0 ..< n * n}" using pos by auto
  next
    fix x assume x: "x \<in> {0 ..< n * n}"
    show "x \<in> insert 0 (Suc ` {0 ..< n * n - 1})"
    proof (cases x)
      case 0 then show ?thesis by simp
    next
      case (Suc y)
      then have "y \<in> {0 ..< n * n - 1}" using x by auto
      then show ?thesis using Suc by blast
    qed
  qed
  finally show ?thesis using d by (simp add: wf_board_def)
qed

lemma wf_board_mset: "wf_board n arr \<Longrightarrow> mset arr' = mset arr \<Longrightarrow> wf_board n arr'"
  unfolding wf_board_def using mset_eq_setD mset_eq_imp_distinct_iff by blast

lemma shuffleToSolvable_attempt:
  assumes "shuffleToSolvable rnd n k = Some r"
  shows "\<exists>k0. r = fisherYates rnd k0 (n * n - 1) (makeSolved n) \<and> accepted n (fst r)"
  using assms
proof (induction rule: shuffleToSolvable.raw_induct[rotated 1, consumes 1])
  case (1 f rnd n k r)
  obtain arr k' where fy: "fisherYates rnd k (n * n - 1) (makeSolved n) = (arr, k')"
    by (cases "fisherYates rnd k (n * n - 1) (makeSolved n)")
  show ?case
  proof (cases "\<not> isSolvable arr n \<or> isSolved arr")
    case True
    then have "f rnd n k' = Some r" using 1(2) fy by (simp add: length_makeSolved)
    then show ?thesis by (rule 1(1))
  next
    case False
    then have "r = (arr, k')" using 1(2) fy by (simp add: length_makeSolved)
    then have "r = fisherYates rnd k (n * n - 1) (makeSolved n) \<and> accepted n (fst r)"
      using fy False by (simp add: accepted_def)
    then show ?thesis by blast
  qed
qed


lemma inversions_spec_Cons:
  "inversions_spec (x # xs) = length (filter (\<lambda>y. y < x) xs) + inversions_spec xs"
proof -
  let ?A = "{j. j < length xs \<and> xs ! j < x}"
  let ?B = "{(i, j). i < j \<and> j < length xs \<and> xs ! i > xs ! j}"
  let ?C = "{(i, j). i < j \<and> j < length (x # xs) \<and> (x # xs) ! i > (x # xs) ! j}"
  have finB: "finite ?B"
    by (rule finite_subset[of _ "{..<length xs} \<times> {..<length xs}"]) auto
  have C: "?C = (\<lambda>j. (0, Suc j)) ` ?A \<union> (\<lambda>(i, j). (Suc i, Suc j)) ` ?B"
  proof (intro equalityI subsetI)
    fix p assume "p \<in> ?C"
    then obtain i j where p: "p = (i, j)" "i < j" "j < length (x # xs)" "(x # xs) ! i > (x # xs) ! j"
      by auto
    obtain j' where j: "j = Suc j'" using p(2) by (cases j) auto
    show "p \<in> (\<lambda>j. (0, Suc j)) ` ?A \<union> (\<lambda>(i, j). (Suc i, Suc j)) ` ?B"
    proof (cases i)
      case 0
      then have "j' \<in> ?A" using p j by simp
      then show ?thesis using p(1) j 0 by blast
    next
      case (Suc i')
      then have "(i', j') \<in> ?B" using p j by simp
      then have "(\<lambda>(i, j). (Suc i, Suc j)) (i', j') \<in> (\<lambda>(i, j). (Suc i, Suc j)) ` ?B"
        by (rule imageI)
      then show ?thesis using p(1) j Suc by simp
    qed
  next
    fix p assume "p \<in> (\<lambda>j. (0, Suc j)) ` ?A \<union> (\<lambda>(i, j). (Suc i, Suc j)) ` ?B"
    then show "p \<in> ?C" by auto
  qed
  have disj: "(\<lambda>j. (0, Suc j)) ` ?A \<inter> (\<lambda>(i, j). (Suc i, Suc j)) ` ?B = {}" by auto
  have "card ?C = card ((\<lambda>j. (0::nat, Suc j)) ` ?A) + card ((\<lambda>(i, j). (Suc i, Suc j)) ` ?B)"
    unfolding C by (rule card_Un_disjoint) (use finB disj in auto)
  moreover have "card ((\<lambda>j. (0::nat, Suc j)) ` ?A) = card ?A"
    by (rule card_image) (simp add: inj_on_def)
  moreover have "card ((\<lambda>(i, j). (Suc i, Suc j)) ` ?B) = card ?B"
    by (rule card_image) (auto simp: inj_on_def)
  moreover have "card ?A = length (filter (\<lambda>y. y < x) xs)"
    by (simp add: length_filter_conv_card)
  ultimately show ?thesis by (simp add: inversions_spec_def)
qed

lemma inversions_spec_Nil [simp]: "inversions_spec [] = 0"
  by (simp add: inversions_spec_def)

lemma inversions_spec_sorted: "sorted xs \<Longrightarrow> inversions_spec xs = 0"
proof (induction xs)
  case Nil
  then show ?case by simp
next
  case (Cons x xs)
  then have "filter (\<lambda>y. y < x) xs = []" by (auto simp: filter_empty_conv)
  then show ?case using Cons by (simp add: inversions_spec_Cons)
qed










lemma upt_plus: "i < j \<Longrightarrow> [i ..< j] = i # [i + 1 ..< j]"
  by (simp add: upt_conv_Cons)





















subsection \<open>The key listener's render\<close>

lemma indexOf_mem:
  "v \<in> set arr \<Longrightarrow>
   0 \<le> indexOf arr v \<and> indexOf arr v < int (length arr) \<and> arr ! nat (indexOf arr v) = v"
proof (induction arr)
  case Nil
  then show ?case by simp
next
  case (Cons x xs)
  show ?case
  proof (cases "x = v")
    case True
    then show ?thesis by simp
  next
    case False
    then have "v \<in> set xs" using Cons.prems by simp
    then have IH: "0 \<le> indexOf xs v" "indexOf xs v < int (length xs)" "xs ! nat (indexOf xs v) = v"
      using Cons.IH by simp_all
    then have "nat (indexOf xs v + 1) = Suc (nat (indexOf xs v))" by simp
    then show ?thesis using False IH by (simp add: Let_def)
  qed
qed

lemma handleTileClick_cases:
  "handleTileClick r i s = s \<or>
   (running r \<and> canSwap (size_st r) (int i) (indexOf (tiles r) 0)
    \<and> tiles (handleTileClick r i s) = swap i (nat (indexOf (tiles r) 0)) (tiles r)
    \<and> tilesId (handleTileClick r i s) = tilesId s + 1
    \<and> size_st (handleTileClick r i s) = size_st s)"
  by (simp add: handleTileClick_def onWin_def Let_def)

lemma directionTarget_range:
  assumes "directionTarget n b d = Some t"
  shows "0 \<le> t \<and> t < int (n * n)"
proof -
  have n: "n \<noteq> 0" using assms by (auto simp: directionTarget_def split: if_splits)
  obtain pr pc where p: "indexToPos n b = (pr, pc)" by (cases "indexToPos n b")
  define tr where "tr = (if d = Up then pr - 1 else if d = Down then pr + 1 else pr)"
  define tc where "tc = (if d = Left then pc - 1 else if d = Right then pc + 1 else pc)"
  have r: "0 \<le> tr" "tr < int n" "0 \<le> tc" "tc < int n" and t: "t = tr * int n + tc"
    using assms n unfolding directionTarget_def p tr_def tc_def posToIndex_def Let_def
    by (auto split: if_splits)
  have "tr + 1 \<le> int n" using r by simp
  then have "(tr + 1) * int n \<le> int n * int n" using r by (intro mult_right_mono) auto
  then have "tr * int n + tc < int n * int n" using r by (simp add: algebra_simps)
  moreover have "0 \<le> tr * int n" using r by simp
  ultimately show ?thesis using r t by simp
qed

lemma moveByDirection_cases:
  "moveByDirection r d s = s \<or>
   (\<exists>i. i < size_st r * size_st r \<and> moveByDirection r d s = handleTileClick r i s)"
proof (cases "directionTarget (size_st r) (indexOf (tiles r) 0) d")
  case None
  then show ?thesis by (simp add: moveByDirection_def)
next
  case (Some t)
  then have "0 \<le> t \<and> t < int (size_st r * size_st r)" by (rule directionTarget_range)
  then have "nat t < size_st r * size_st r" by linarith
  then show ?thesis using Some by (auto simp: moveByDirection_def)
qed

lemma onKey_cases:
  "onKey r ky s = s \<or>
   (\<exists>i. i < size_st r * size_st r \<and> onKey r ky s = handleTileClick r i s)"
  using moveByDirection_cases[of r _ s] by (auto simp: onKey_def split: option.splits)

lemma commit_same: "commit e (cur e, randomCalls e) = e"
  by (simp add: commit_def)

lemma coherent_commit:
  assumes "coherent e"
    and "tilesId s' \<noteq> tilesId (cur e) \<or> running s' \<noteq> running (cur e)
         \<or> (tiles s' = tiles (cur e) \<and> size_st s' = size_st (cur e)
             \<and> highScores s' = highScores (cur e))"
  shows "coherent (commit e (s', k'))"
  using assms by (auto simp: coherent_def commit_def)

lemma resetBoard_Some:
  assumes "resetBoard rnd n (s, k) = Some (s', k')"
  shows "\<exists>arr. shuffleToSolvable rnd n k = Some (arr, k') \<and> tiles s' = arr
         \<and> tilesId s' = tilesId s + 1 \<and> size_st s' = size_st s \<and> highScores s' = highScores s
         \<and> \<not> running s' \<and> moves s' = 0"
  using assms by (auto simp: resetBoard_def Let_def split: option.splits)

lemma startGame_Some:
  assumes "startGame r rnd (s, k) = Some (s', k')"
  shows "size_st s' = size_st s \<and> highScores s' = highScores s \<and> running s' \<and> moves s' = 0
     \<and> (if isSolved (tiles r)
         then (\<exists>arr. shuffleToSolvable rnd (size_st r) k = Some (arr, k') \<and> tiles s' = arr)
              \<and> tilesId s' = tilesId s + 1
         else tiles s' = tiles s \<and> tilesId s' = tilesId s)"
  using assms by (auto simp: startGame_def Let_def split: option.splits if_splits)

lemma restart_Some:
  assumes "restart r rnd (s, k) = Some (s', k')"
  shows "\<exists>arr. shuffleToSolvable rnd (size_st r) k = Some (arr, k') \<and> tiles s' = arr
         \<and> tilesId s' = tilesId s + 1 \<and> size_st s' = size_st s \<and> highScores s' = highScores s
         \<and> running s' \<and> moves s' = 0"
proof -
  obtain s1 where r: "resetBoard rnd (size_st r) (s, k) = Some (s1, k')" and s': "s' = s1\<lparr>running := True\<rparr>"
    using assms by (auto simp: restart_def split: option.splits)
  show ?thesis using resetBoard_Some[OF r] s' by auto
qed

lemma coherent_step:
  assumes c: "coherent e" and st: "step rnd ev e = Some e'"
  shows "coherent e'"
proof (cases ev)
  case (TileClick i)
  show ?thesis
  proof (cases "i < length (tiles (cur e))")
    case True
    then have e': "e' = commit e (handleTileClick (cur e) i (cur e), randomCalls e)"
      using st TileClick by (simp add: step_def Let_def)
    show ?thesis unfolding e'
      using handleTileClick_cases[of "cur e" i "cur e"] by (intro coherent_commit[OF c]) auto
  next
    case False
    then show ?thesis using st TileClick c by (simp add: step_def Let_def)
  qed
next
  case (KeyDown ky)
  then have e': "e' = commit e (onKey (keyRender e) ky (cur e), randomCalls e)"
    using st by (simp add: step_def Let_def)
  have "onKey (keyRender e) ky (cur e) = cur e
      \<or> tilesId (onKey (keyRender e) ky (cur e)) = tilesId (cur e) + 1"
    using onKey_cases[of "keyRender e" ky "cur e"]
      handleTileClick_cases[of "keyRender e" _ "cur e"] by metis
  then show ?thesis unfolding e' by (intro coherent_commit[OF c]) auto
next
  case Start
  then obtain s' k' where s: "startGame (cur e) rnd (cur e, randomCalls e) = Some (s', k')"
    and e': "e' = commit e (s', k')"
    using st by (auto simp: step_def Let_def)
  show ?thesis unfolding e'
    using startGame_Some[OF s] by (intro coherent_commit[OF c]) (auto split: if_splits)
next
  case Restart
  then obtain s' k' where s: "restart (cur e) rnd (cur e, randomCalls e) = Some (s', k')"
    and e': "e' = commit e (s', k')"
    using st by (auto simp: step_def Let_def)
  show ?thesis unfolding e'
    using restart_Some[OF s] by (intro coherent_commit[OF c]) auto
next
  case (SetSize n)
  show ?thesis
  proof (cases "n = size_st (cur e)")
    case True
    then show ?thesis using st SetSize c by (simp add: step_def Let_def)
  next
    case False
    then obtain s' k' where
      s: "resetBoard rnd n ((cur e)\<lparr>size_st := n\<rparr>, randomCalls e) = Some (s', k')"
      and e': "e' = commit e (s', k')"
      using st SetSize by (auto simp: step_def Let_def)
    show ?thesis unfolding e'
      using resetBoard_Some[OF s] by (intro coherent_commit[OF c]) auto
  qed
next
  case Tick
  then have e': "e' = commit e (if running (cur e) then (cur e)\<lparr>time_st := time_st (cur e) + 1\<rparr>
      else cur e, randomCalls e)"
    using st by (simp add: step_def Let_def)
  show ?thesis unfolding e' by (intro coherent_commit[OF c]) auto
qed

lemma coherent_mount: "mount rnd = Some e \<Longrightarrow> coherent e"
  by (auto simp: mount_def coherent_def)

lemma reachable_coherent: "reachable rnd e \<Longrightarrow> coherent e"
  by (induction rule: reachable.induct) (auto intro: coherent_mount coherent_step)

lemma draws_bug_range: "\<forall>x \<in> set draws_bug. 0 \<le> x \<and> x < 1"
  by (simp add: draws_bug_def)

lemma random_ok_bug: "random_ok rnd_bug"
  unfolding random_ok_def rnd_bug_def using draws_bug_range nth_mem by auto

lemma shuffle_bug_4: "shuffleToSolvable rnd_bug 4 0 = Some (board4, 15)"
proof -
  have fy: "fisherYates rnd_bug 0 (length (makeSolved 4) - 1) (makeSolved 4) = (board4, 15)"
    by code_simp
  have acc: "\<not> (\<not> isSolvable board4 4 \<or> isSolved board4)"
    by code_simp
  show ?thesis
    by (subst shuffleToSolvable.simps) (simp only: fy prod.case acc if_False)
qed

lemma shuffle_bug_3: "shuffleToSolvable rnd_bug 3 15 = Some ([1, 2, 3, 4, 5, 6, 0, 7, 8], 23)"
proof -
  have fy: "fisherYates rnd_bug 15 (length (makeSolved 3) - 1) (makeSolved 3)
      = ([1, 2, 3, 4, 5, 6, 0, 7, 8], 23)"
    by code_simp
  have acc: "\<not> (\<not> isSolvable [1, 2, 3, 4, 5, 6, 0, 7, 8] 3 \<or> isSolved [1, 2, 3, 4, 5, 6, 0, 7, 8])"
    by code_simp
  show ?thesis
    by (subst shuffleToSolvable.simps) (simp only: fy prod.case acc if_False)
qed

lemma mount_bug: "mount rnd_bug = Some engine_mounted"
  by (simp add: mount_def resetBoard_def initial_state_def shuffle_bug_4 engine_mounted_def)

lemma bug_step1:
  "step rnd_bug (SetSize 3) engine_mounted = Some (fresh (st3 [1, 2, 3, 4, 5, 6, 0, 7, 8] 2 0 False) 23)"
  by (simp add: step_def engine_mounted_def initial_state_def resetBoard_def shuffle_bug_3
      commit_def st3_def fresh_def del: One_nat_def)

lemma bug_step2:
  "step rnd_bug Start (fresh (st3 [1, 2, 3, 4, 5, 6, 0, 7, 8] 2 0 False) 23) =
     Some (fresh (st3 [1, 2, 3, 4, 5, 6, 0, 7, 8] 2 0 True) 23)"
proof -
  have ns: "\<not> isSolved [1, 2, 3, 4, 5, 6, 0, 7, 8]" by code_simp
  show ?thesis
    by (simp add: step_def startGame_def commit_def st3_def fresh_def ns del: One_nat_def)
qed

lemma click_eval:
  assumes "running r" "indexOf (tiles r) 0 = int b" "canSwap (size_st r) (int i) (int b)"
  shows "handleTileClick r i s =
     (if isSolved (swap i b (tiles r))
      then onWin r (s\<lparr>tiles := swap i b (tiles r), tilesId := tilesId s + 1, moves := moves s + 1\<rparr>)
      else s\<lparr>tiles := swap i b (tiles r), tilesId := tilesId s + 1, moves := moves s + 1\<rparr>)"
  using assms by (simp add: handleTileClick_def Let_def)

lemma key_eval:
  assumes "running r" "indexOf (tiles r) 0 = int b" "keyMap ky = Some d"
    "directionTarget (size_st r) (int b) d = Some (int i)"
  shows "onKey r ky s = handleTileClick r i s"
  using assms by (simp add: onKey_def moveByDirection_def)

lemma bug_step3:
  "step rnd_bug (KeyDown ArrowLeft) (fresh (st3 [1, 2, 3, 4, 5, 6, 0, 7, 8] 2 0 True) 23) =
     Some (fresh (st3 [1, 2, 3, 4, 5, 6, 7, 0, 8] 3 1 True) 23)"
proof -
  let ?r = "st3 [1, 2, 3, 4, 5, 6, 0, 7, 8] 2 0 True"
  have r: "running ?r" by (simp add: st3_def)
  have b: "indexOf (tiles ?r) 0 = int 6" by (simp add: st3_def Let_def)
  have t: "directionTarget (size_st ?r) (int 6) Right = Some (int 7)"
    by (simp add: st3_def directionTarget_def indexToPos_def js_rem_def posToIndex_def Let_def)
  have c: "canSwap (size_st ?r) (int 7) (int 6)"
    by (simp add: st3_def canSwap_def indexToPos_def js_rem_def Let_def)
  have sw: "swap 7 6 (tiles ?r) = [1, 2, 3, 4, 5, 6, 7, 0, 8]" by (simp add: st3_def swap_def)
  have ns: "\<not> isSolved [1, 2, 3, 4, 5, 6, 7, 0, 8]" by code_simp
  have "onKey ?r ArrowLeft ?r = st3 [1, 2, 3, 4, 5, 6, 7, 0, 8] 3 1 True"
    unfolding key_eval[OF r b keyMap.simps(3) t] click_eval[OF r b c] sw
    by (simp add: ns st3_def del: One_nat_def)
  then show ?thesis by (simp add: step_def commit_def fresh_def) (simp add: st3_def)
qed

lemma bug_step4:
  "step rnd_bug Start (fresh (st3 [1, 2, 3, 4, 5, 6, 7, 0, 8] 3 1 True) 23) =
     Some \<lparr>cur = st3 [1, 2, 3, 4, 5, 6, 7, 0, 8] 3 0 True,
           keyRender = st3 [1, 2, 3, 4, 5, 6, 7, 0, 8] 3 1 True, randomCalls = 23\<rparr>"
proof -
  have ns: "\<not> isSolved [1, 2, 3, 4, 5, 6, 7, 0, 8]" by code_simp
  show ?thesis
    by (simp add: step_def startGame_def commit_def st3_def fresh_def ns del: One_nat_def)
qed

lemma bug_step5:
  "step rnd_bug (KeyDown ArrowLeft)
      \<lparr>cur = st3 [1, 2, 3, 4, 5, 6, 7, 0, 8] 3 0 True,
       keyRender = st3 [1, 2, 3, 4, 5, 6, 7, 0, 8] 3 1 True, randomCalls = 23\<rparr> =
     Some (fresh ((st3 [1, 2, 3, 4, 5, 6, 7, 8, 0] 4 1 False)
             \<lparr>message := SolvedMessage 2 0,
              highScores := (highScores initial_state)(3 := Num 2)\<rparr>) 23)"
proof -
  let ?r = "st3 [1, 2, 3, 4, 5, 6, 7, 0, 8] 3 1 True"
  let ?s = "st3 [1, 2, 3, 4, 5, 6, 7, 0, 8] 3 0 True"
  have r: "running ?r" by (simp add: st3_def)
  have b: "indexOf (tiles ?r) 0 = int 7" by (simp add: st3_def Let_def)
  have t: "directionTarget (size_st ?r) (int 7) Right = Some (int 8)"
    by (simp add: st3_def directionTarget_def indexToPos_def js_rem_def posToIndex_def Let_def)
  have c: "canSwap (size_st ?r) (int 8) (int 7)"
    by (simp add: st3_def canSwap_def indexToPos_def js_rem_def Let_def)
  have sw: "swap 8 7 (tiles ?r) = [1, 2, 3, 4, 5, 6, 7, 8, 0]" by (simp add: st3_def swap_def)
  have sv: "isSolved [1, 2, 3, 4, 5, 6, 7, 8, 0]" by code_simp
  have "onKey ?r ArrowLeft ?s = (st3 [1, 2, 3, 4, 5, 6, 7, 8, 0] 4 1 False)
             \<lparr>message := SolvedMessage 2 0,
              highScores := (highScores initial_state)(3 := Num 2)\<rparr>"
    unfolding key_eval[OF r b keyMap.simps(3) t] click_eval[OF r b c] sw
    by (simp add: sv st3_def onWin_def initial_state_def del: One_nat_def)
  then show ?thesis by (simp add: step_def commit_def fresh_def) (simp add: st3_def)
qed

lemma reachable_mounted: "reachable rnd_bug engine_mounted"
  using mount_bug by (rule reachable.mounted)

text \<open>
  Claim C9. While \<open>running\<close> is false, a click on a tile and a key press change
  nothing: the engine after the event is the engine before it.
\<close>

theorem not_running_noop:
  assumes "reachable rnd e" "\<not> running (cur e)"
  shows "step rnd (TileClick i) e = Some e \<and> step rnd (KeyDown ky) e = Some e"
proof -
  have "\<not> running (keyRender e)"
    using reachable_coherent[OF assms(1)] assms(2) by (simp add: coherent_def)
  then show ?thesis
    using assms(2) by (simp add: step_def Let_def handleTileClick_def onKey_def commit_same)
qed

theorem not_running_noop_witness:
  "reachable rnd_bug engine_mounted \<and> \<not> running (cur engine_mounted)
   \<and> step rnd_bug (TileClick 0) engine_mounted = Some engine_mounted
   \<and> step rnd_bug (KeyDown ArrowUp) engine_mounted = Some engine_mounted"
proof -
  have nr: "\<not> running (cur engine_mounted)"
    by (simp add: engine_mounted_def initial_state_def)
  show ?thesis
    using not_running_noop [OF reachable_mounted nr, of 0 ArrowUp] reachable_mounted nr by blast
qed

subsection \<open>The board stays a permutation\<close>

lemma shuffleToSolvable_wf:
  assumes ok: "random_ok rnd" and r: "shuffleToSolvable rnd n k = Some (arr, k')"
  shows "wf_board n arr"
proof -
  obtain k0 where fy: "(arr, k') = fisherYates rnd k0 (n * n - 1) (makeSolved n)"
    using shuffleToSolvable_attempt[OF r] by auto
  have "n * n - 1 < length (makeSolved n) \<or> n * n - 1 = 0"
    by (cases "n * n") (simp_all add: length_makeSolved)
  then have "mset (fst (fisherYates rnd k0 (n * n - 1) (makeSolved n))) = mset (makeSolved n)"
    using fisherYates_mset[OF ok, of "n * n - 1" "makeSolved n" k0] by simp
  then have ms: "mset arr = mset (makeSolved n)" using fy by (metis fst_conv)
  show ?thesis using wf_makeSolved ms by (rule wf_board_mset)
qed

lemma wf_handleTileClick:
  assumes wf: "wf_board (size_st r) (tiles r)" and i: "i < length (tiles r)"
    and t: "tiles s = tiles r"
  shows "wf_board (size_st r) (tiles (handleTileClick r i s))"
proof -
  consider "handleTileClick r i s = s"
    | "canSwap (size_st r) (int i) (indexOf (tiles r) 0)"
      "tiles (handleTileClick r i s) = swap i (nat (indexOf (tiles r) 0)) (tiles r)"
    using handleTileClick_cases[of r i s] by blast
  then show ?thesis
  proof cases
    case 1
    then show ?thesis using wf t by simp
  next
    case 2
    have "tiles r \<noteq> []" using i by auto
    then have "size_st r * size_st r \<noteq> 0"
      using wf_board_length[OF wf] by (cases "size_st r = 0") auto
    then have "0 \<in> set (tiles r)" using wf by (auto simp: wf_board_def)
    then have "nat (indexOf (tiles r) 0) < length (tiles r)"
      using indexOf_mem[of 0 "tiles r"] by linarith
    then have "mset (swap i (nat (indexOf (tiles r) 0)) (tiles r)) = mset (tiles r)"
      using i by (intro mset_swap')
    then show ?thesis using wf 2(2) wf_board_mset by metis
  qed
qed

lemma cur_commit [simp]: "cur (commit e (s', k')) = s'"
  by (simp add: commit_def)

lemma wf_step:
  assumes ok: "random_ok rnd" and c: "coherent e"
    and wf: "wf_board (size_st (cur e)) (tiles (cur e))"
    and st: "step rnd ev e = Some e'"
  shows "wf_board (size_st (cur e')) (tiles (cur e'))"
proof (cases ev)
  case (TileClick i)
  show ?thesis
  proof (cases "i < length (tiles (cur e))")
    case True
    then have e': "e' = commit e (handleTileClick (cur e) i (cur e), randomCalls e)"
      using st TileClick by (simp add: step_def Let_def)
    have "size_st (handleTileClick (cur e) i (cur e)) = size_st (cur e)"
      using handleTileClick_cases[of "cur e" i "cur e"] by auto
    then show ?thesis unfolding e'
      using wf_handleTileClick[OF wf True refl] by simp
  next
    case False
    then show ?thesis using st TileClick wf by (simp add: step_def Let_def)
  qed
next
  case (KeyDown ky)
  let ?r = "keyRender e"
  have e': "e' = commit e (onKey ?r ky (cur e), randomCalls e)"
    using st KeyDown by (simp add: step_def Let_def)
  have r: "tiles ?r = tiles (cur e)" "size_st ?r = size_st (cur e)"
    using c by (simp_all add: coherent_def)
  have wfr: "wf_board (size_st ?r) (tiles ?r)" using wf r by simp
  consider "onKey ?r ky (cur e) = cur e"
    | i where "i < size_st ?r * size_st ?r" "onKey ?r ky (cur e) = handleTileClick ?r i (cur e)"
    using onKey_cases[of ?r ky "cur e"] by blast
  then show ?thesis
  proof cases
    case 1
    then show ?thesis unfolding e' using wf by simp
  next
    case 2
    have i: "i < length (tiles ?r)" using 2(1) wf_board_length[OF wfr] by simp
    have "size_st (handleTileClick ?r i (cur e)) = size_st (cur e)"
      using handleTileClick_cases[of ?r i "cur e"] by auto
    then show ?thesis unfolding e' 2(2)
      using wf_handleTileClick[OF wfr i r(1)[symmetric]] r by simp
  qed
next
  case Start
  then obtain s' k' where s: "startGame (cur e) rnd (cur e, randomCalls e) = Some (s', k')"
    and e': "e' = commit e (s', k')"
    using st by (auto simp: step_def Let_def)
  show ?thesis unfolding e'
    using startGame_Some[OF s] wf shuffleToSolvable_wf[OF ok]
    by (auto split: if_splits)
next
  case Restart
  then obtain s' k' where s: "restart (cur e) rnd (cur e, randomCalls e) = Some (s', k')"
    and e': "e' = commit e (s', k')"
    using st by (auto simp: step_def Let_def)
  show ?thesis unfolding e'
    using restart_Some[OF s] shuffleToSolvable_wf[OF ok] by auto
next
  case (SetSize n)
  show ?thesis
  proof (cases "n = size_st (cur e)")
    case True
    then show ?thesis using st SetSize wf by (simp add: step_def Let_def)
  next
    case False
    then obtain s' k' where
      s: "resetBoard rnd n ((cur e)\<lparr>size_st := n\<rparr>, randomCalls e) = Some (s', k')"
      and e': "e' = commit e (s', k')"
      using st SetSize by (auto simp: step_def Let_def)
    show ?thesis unfolding e'
      using resetBoard_Some[OF s] shuffleToSolvable_wf[OF ok] by auto
  qed
next
  case Tick
  then have e': "e' = commit e (if running (cur e) then (cur e)\<lparr>time_st := time_st (cur e) + 1\<rparr>
      else cur e, randomCalls e)"
    using st by (simp add: step_def Let_def)
  show ?thesis unfolding e' using wf by simp
qed

lemma wf_mount:
  assumes ok: "random_ok rnd" and m: "mount rnd = Some e"
  shows "wf_board (size_st (cur e)) (tiles (cur e))"
proof -
  obtain s k where r: "resetBoard rnd (size_st initial_state) (initial_state, 0) = Some (s, k)"
    and e: "e = \<lparr>cur = s, keyRender = s, randomCalls = k\<rparr>"
    using m by (auto simp: mount_def)
  show ?thesis using resetBoard_Some[OF r] shuffleToSolvable_wf[OF ok] e by auto
qed

lemma reachable_wf:
  "reachable rnd e \<Longrightarrow> random_ok rnd \<Longrightarrow> wf_board (size_st (cur e)) (tiles (cur e))"
proof (induction rule: reachable.induct)
  case (mounted e)
  then show ?case by (intro wf_mount)
next
  case (stepped e ev e')
  then show ?case using wf_step reachable_coherent by blast
qed

text \<open>
  Claim C10. Every board the component holds after mounting and any sequence of events
  (clicks and keys, accepted or not, and the buttons that shuffle) is a permutation of
  \<open>0 .. n*n-1\<close> of length \<open>n * n\<close> for the current size \<open>n\<close>, with exactly one blank.
\<close>

theorem reachable_board:
  assumes "random_ok rnd" "reachable rnd e"
  shows "wf_board (size_st (cur e)) (tiles (cur e))
       \<and> length (tiles (cur e)) = size_st (cur e) * size_st (cur e)
       \<and> (0 < size_st (cur e) \<longrightarrow> length (filter (\<lambda>v. v = 0) (tiles (cur e))) = 1)"
proof -
  let ?n = "size_st (cur e)" and ?t = "tiles (cur e)"
  have wf: "wf_board ?n ?t" using assms(2,1) by (rule reachable_wf)
  have len: "length ?t = ?n * ?n" using wf by (rule wf_board_length)
  have "length (filter (\<lambda>v. v = 0) ?t) = 1" if "0 < ?n"
  proof -
    have "0 \<in> set ?t" using wf that by (simp add: wf_board_def)
    then have "{x. x = 0} \<inter> set ?t = {0}" by auto
    moreover have "distinct ?t" using wf by (simp add: wf_board_def)
    ultimately show ?thesis by (simp add: distinct_length_filter)
  qed
  then show ?thesis using wf len by blast
qed

theorem reachable_board_witness:
  "random_ok rnd_bug \<and> reachable rnd_bug engine_mounted
   \<and> wf_board (size_st (cur engine_mounted)) (tiles (cur engine_mounted))
   \<and> length (tiles (cur engine_mounted)) = 4 * 4
   \<and> length (filter (\<lambda>v. v = 0) (tiles (cur engine_mounted))) = 1"
proof -
  have n: "size_st (cur engine_mounted) = 4"
    by (simp add: engine_mounted_def initial_state_def)
  show ?thesis
    using reachable_board [OF random_ok_bug reachable_mounted] random_ok_bug reachable_mounted
    by (simp add: n)
qed

subsection \<open>Winning\<close>

text \<open>What \<open>onWin\<close> reports and stores is computed from the render \<open>r\<close> of the handler.\<close>

lemma onWin_fields:
  "running (onWin r s) = False
   \<and> message (onWin r s) = SolvedMessage (moves r + 1) (time_st r)
   \<and> highScores (onWin r s) =
       (if highScores r (size_st r) = Null \<or> js_less (moves r + 1) (highScores r (size_st r))
        then (highScores s)(size_st r := Num (moves r + 1)) else highScores s)"
  by (simp add: onWin_def Let_def)

lemma run_bug_4:
  "run rnd_bug [SetSize 3, Start, KeyDown ArrowLeft, Start] engine_mounted =
     Some \<lparr>cur = st3 [1, 2, 3, 4, 5, 6, 7, 0, 8] 3 0 True,
           keyRender = st3 [1, 2, 3, 4, 5, 6, 7, 0, 8] 3 1 True, randomCalls = 23\<rparr>"
  by (simp add: bug_step1 bug_step2 bug_step3 bug_step4 del: One_nat_def)

text \<open>
  Claim C6, at a run where it fails. After mounting, the level button for size 3,
  Start, one arrow key, Start again and a second arrow key: before the last key the
  board is one move from solved, the counter is \<open>0\<close> and the game is running; the key
  solves the board and the counter becomes \<open>1\<close>, but the message reports \<open>2\<close> moves
  and \<open>2\<close> is stored as the high score. The key listener is still the closure of the
  render before the second Start, where \<open>moves\<close> was \<open>1\<close>.
\<close>

theorem stale_listener_reports_old_count:
  "map_option observe (from_mount rnd_bug [SetSize 3, Start, KeyDown ArrowLeft, Start]) =
     Some ([1, 2, 3, 4, 5, 6, 7, 0, 8], 0, True, NoMessage, Null)
   \<and> map_option observe
       (from_mount rnd_bug [SetSize 3, Start, KeyDown ArrowLeft, Start, KeyDown ArrowLeft]) =
     Some ([1, 2, 3, 4, 5, 6, 7, 8, 0], 1, False, SolvedMessage 2 0, Num 2)"
proof -
  have a: "run rnd_bug [SetSize 3, Start, KeyDown ArrowLeft, Start, KeyDown ArrowLeft] engine_mounted =
     Some (fresh ((st3 [1, 2, 3, 4, 5, 6, 7, 8, 0] 4 1 False)
             \<lparr>message := SolvedMessage 2 0,
              highScores := (highScores initial_state)(3 := Num 2)\<rparr>) 23)"
    by (simp add: bug_step1 bug_step2 bug_step3 bug_step4 bug_step5 del: One_nat_def)
  show ?thesis
    unfolding from_mount_def mount_bug option.case run_bug_4 a
    by (simp add: observe_def st3_def fresh_def initial_state_def del: One_nat_def)
qed

text \<open>The same last move made with a click on the tile reports \<open>1\<close>.\<close>

lemma click_reports_count:
  "map_option observe
       (from_mount rnd_bug [SetSize 3, Start, KeyDown ArrowLeft, Start, TileClick 8]) =
     Some ([1, 2, 3, 4, 5, 6, 7, 8, 0], 1, False, SolvedMessage 1 0, Num 1)"
proof -
  let ?r = "st3 [1, 2, 3, 4, 5, 6, 7, 0, 8] 3 0 True"
  have r: "running ?r" by (simp add: st3_def)
  have b: "indexOf (tiles ?r) 0 = int 7" by (simp add: st3_def Let_def)
  have c: "canSwap (size_st ?r) (int 8) (int 7)"
    by (simp add: st3_def canSwap_def indexToPos_def js_rem_def Let_def)
  have sw: "swap 8 7 (tiles ?r) = [1, 2, 3, 4, 5, 6, 7, 8, 0]" by (simp add: st3_def swap_def)
  have sv: "isSolved [1, 2, 3, 4, 5, 6, 7, 8, 0]" by code_simp
  have h: "handleTileClick ?r 8 ?r = (st3 [1, 2, 3, 4, 5, 6, 7, 8, 0] 4 1 False)
             \<lparr>message := SolvedMessage 1 0,
              highScores := (highScores initial_state)(3 := Num 1)\<rparr>"
    unfolding click_eval[OF r b c] sw
    by (simp add: sv st3_def onWin_def initial_state_def del: One_nat_def)
  have l: "8 < length (tiles ?r)" by (simp add: st3_def)
  have "step rnd_bug (TileClick 8)
      \<lparr>cur = ?r, keyRender = st3 [1, 2, 3, 4, 5, 6, 7, 0, 8] 3 1 True, randomCalls = 23\<rparr> =
      Some (fresh ((st3 [1, 2, 3, 4, 5, 6, 7, 8, 0] 4 1 False)
             \<lparr>message := SolvedMessage 1 0,
              highScores := (highScores initial_state)(3 := Num 1)\<rparr>) 23)"
    using l by (simp add: step_def commit_def fresh_def h Let_def del: One_nat_def) (simp add: st3_def)
  then have "run rnd_bug [SetSize 3, Start, KeyDown ArrowLeft, Start, TileClick 8] engine_mounted =
      Some (fresh ((st3 [1, 2, 3, 4, 5, 6, 7, 8, 0] 4 1 False)
             \<lparr>message := SolvedMessage 1 0,
              highScores := (highScores initial_state)(3 := Num 1)\<rparr>) 23)"
    by (simp add: bug_step1 bug_step2 bug_step3 bug_step4 del: One_nat_def)
  then show ?thesis
    unfolding from_mount_def mount_bug option.case
    by (simp add: observe_def st3_def fresh_def initial_state_def del: One_nat_def)
qed

subsection \<open>The parity rule is invariant under moves\<close>

lemma cross_append_left: "cross (xs @ ys) zs = cross xs zs + cross ys zs"
  by (induction xs) auto

lemma cross_append_right: "cross xs (ys @ zs) = cross xs ys + cross xs zs"
  by (induction xs) auto

lemma cross_Nil_right [simp]: "cross xs [] = 0"
  by (induction xs) auto

lemma cross_single_right: "cross xs [t] = length (filter (\<lambda>x. t < x) xs)"
  by (induction xs) auto

lemma cross_Cons_right: "cross xs (t # ys) = length (filter (\<lambda>x. t < x) xs) + cross xs ys"
  using cross_append_right[of xs "[t]" ys] by (simp add: cross_single_right)

lemma inversions_spec_append:
  "inversions_spec (xs @ ys) = inversions_spec xs + inversions_spec ys + cross xs ys"
  by (induction xs) (auto simp: inversions_spec_Cons)

lemma less_greater_split:
  "t \<notin> set B \<Longrightarrow> length (filter (\<lambda>y. y < t) B) + length (filter (\<lambda>y. t < y) B) = length (B::nat list)"
proof (induction B)
  case Nil
  then show ?case by simp
next
  case (Cons a B)
  then have "a < t \<or> t < a" by auto
  then show ?case using Cons by auto
qed

lemma inversions_move:
  assumes "t \<notin> set B"
  shows "even (inversions_spec (A @ B @ t # C) + inversions_spec (A @ t # B @ C)) \<longleftrightarrow> even (length B)"
proof -
  let ?lt = "length (filter (\<lambda>y. y < t) B)" and ?gt = "length (filter (\<lambda>y. t < y) B)"
  have 1: "inversions_spec (A @ B @ t # C) =
      inversions_spec A + (inversions_spec B + (length (filter (\<lambda>y. y < t) C) + inversions_spec C)
        + (?gt + cross B C)) + (cross A B + (length (filter (\<lambda>x. t < x) A) + cross A C))"
    by (simp add: inversions_spec_append inversions_spec_Cons cross_append_right cross_Cons_right)
  have 2: "inversions_spec (A @ t # B @ C) =
      inversions_spec A + (?lt + length (filter (\<lambda>y. y < t) C) + (inversions_spec B + inversions_spec C + cross B C))
        + (length (filter (\<lambda>x. t < x) A) + (cross A B + cross A C))"
    by (simp add: inversions_spec_append inversions_spec_Cons cross_append_right cross_Cons_right)
  have "inversions_spec (A @ B @ t # C) + inversions_spec (A @ t # B @ C) =
      2 * (inversions_spec A + inversions_spec B + inversions_spec C + cross B C + cross A B + cross A C
           + length (filter (\<lambda>y. y < t) C) + length (filter (\<lambda>x. t < x) A)) + (?lt + ?gt)"
    unfolding 1 2 by simp
  then show ?thesis using less_greater_split[OF assms] by simp
qed

lemma swap_decomp:
  assumes "lo < hi" "hi < length b"
  shows "\<exists>A B C. b = A @ b ! lo # B @ b ! hi # C \<and> length A = lo \<and> length B = hi - lo - 1
           \<and> swap lo hi b = A @ b ! hi # B @ b ! lo # C
           \<and> swap hi lo b = A @ b ! hi # B @ b ! lo # C"
proof -
  define A where "A = take lo b"
  define R where "R = drop (Suc lo) b"
  have b1: "b = A @ b ! lo # R"
    unfolding A_def R_def using assms by (intro id_take_nth_drop) simp
  have lA: "length A = lo" unfolding A_def using assms by simp
  have lR: "hi - lo - 1 < length R" unfolding R_def using assms by simp
  define B where "B = take (hi - lo - 1) R"
  define C where "C = drop (Suc (hi - lo - 1)) R"
  have r1: "R = B @ R ! (hi - lo - 1) # C"
    unfolding B_def C_def using lR by (intro id_take_nth_drop)
  have lB: "length B = hi - lo - 1" unfolding B_def using lR by simp
  have "b ! hi = (A @ b ! lo # R) ! (lo + 1 + (hi - lo - 1))" using b1 assms by simp
  also have "\<dots> = R ! (hi - lo - 1)"
    using lA by (simp add: nth_append)
  finally have rh: "R ! (hi - lo - 1) = b ! hi" by simp
  have b2: "b = A @ b ! lo # B @ b ! hi # C" using b1 r1 rh by simp
  have hi_eq: "hi = length A + 1 + length B" using lA lB assms by simp
  have s1: "(A @ x # B @ y # C)[lo := u] = A @ u # B @ y # C" for x y u
    using lA by (simp add: list_update_append)
  have s2: "(A @ x # B @ y # C)[hi := u] = A @ x # B @ u # C" for x y u
    unfolding hi_eq by (simp add: list_update_append)
  have "swap lo hi b = (b[lo := b ! hi])[hi := b ! lo]" by (simp add: swap_def)
  also have "\<dots> = ((A @ b ! lo # B @ b ! hi # C)[lo := b ! hi])[hi := b ! lo]" using b2 by simp
  also have "\<dots> = A @ b ! hi # B @ b ! lo # C" by (simp only: s1 s2)
  finally have sw1: "swap lo hi b = A @ b ! hi # B @ b ! lo # C" .
  have "swap hi lo b = (b[hi := b ! lo])[lo := b ! hi]" by (simp add: swap_def)
  also have "\<dots> = ((A @ b ! lo # B @ b ! hi # C)[hi := b ! lo])[lo := b ! hi]" using b2 by simp
  also have "\<dots> = A @ b ! hi # B @ b ! lo # C" by (simp only: s1 s2)
  finally have sw2: "swap hi lo b = A @ b ! hi # B @ b ! lo # C" .
  show ?thesis using b2 lA lB sw1 sw2 by blast
qed

lemma manhattan_cases:
  assumes n: "0 < n" and m: "manhattan n i z = 1"
  shows "(i div n = z div n \<and> (i = z + 1 \<or> z = i + 1))
       \<or> ((i = z + n \<and> i div n = z div n + 1) \<or> (z = i + n \<and> z div n = i div n + 1))"
proof -
  have ei: "i = i div n * n + i mod n" and ez: "z = z div n * n + z mod n" by simp_all
  consider "i div n = z div n" "\<bar>int (i mod n) - int (z mod n)\<bar> = 1"
    | "\<bar>int (i div n) - int (z div n)\<bar> = 1" "i mod n = z mod n"
    using m unfolding manhattan_def by (cases "i div n = z div n") auto
  then show ?thesis
  proof cases
    case 1
    then have "i mod n = z mod n + 1 \<or> z mod n = i mod n + 1" by auto
    then show ?thesis using 1(1) ei ez by (metis add.assoc)
  next
    case 2
    then have "i div n = z div n + 1 \<or> z div n = i div n + 1" by auto
    then show ?thesis
    proof
      assume a: "i div n = z div n + 1"
      have "i = (z div n + 1) * n + z mod n" using ei a 2(2) by simp
      then have "i = z + n" using ez by (simp add: algebra_simps)
      then show ?thesis using a by simp
    next
      assume a: "z div n = i div n + 1"
      have "z = (i div n + 1) * n + i mod n" using ez a 2(2) by simp
      then have "z = i + n" using ei by (simp add: algebra_simps)
      then show ?thesis using a by simp
    qed
  qed
qed

lemma isSolvable_parity:
  assumes n: "0 < n" and d: "distinct b" and z: "z < length b" "b ! z = 0"
  shows "isSolvable b n =
     (if odd n then even (inversions_spec (filter (\<lambda>v. v \<noteq> 0) b))
      else odd (z div n + inversions_spec (filter (\<lambda>v. v \<noteq> 0) b)))"
proof -
  have idx: "indexOf b 0 = int z" using d z by (rule indexOf_unique)
  have dv: "int z div int n = int (z div n)" by (simp add: zdiv_int)
  show ?thesis
  proof (cases "odd n")
    case True
    then have "n mod 2 = 1" by (simp add: odd_iff_mod_2_eq_one)
    then show ?thesis using True
      by (simp add: isSolvable_def inversionCount_spec even_iff_mod_2_eq_zero)
  next
    case False
    then have e: "n mod 2 \<noteq> 1" "n \<noteq> 0" using n by (auto simp: odd_iff_mod_2_eq_one)
    let ?inv = "inversions_spec (filter (\<lambda>v. v \<noteq> 0) b)"
    have h1: "((int n - (int (z div n) + 1) + 1) mod 2 = 0) = even (z div n)"
      using False by (simp add: even_iff_mod_2_eq_zero[symmetric])
    have h2: "(?inv mod 2 = 1) = odd ?inv" by (simp add: odd_iff_mod_2_eq_one)
    have h3: "(?inv mod 2 = 0) = even ?inv" by (simp add: even_iff_mod_2_eq_zero)
    have "isSolvable b n =
        (if (int n - (int (z div n) + 1) + 1) mod 2 = 0 then ?inv mod 2 = 1 else ?inv mod 2 = 0)"
      using e by (simp add: isSolvable_def inversionCount_spec idx dv Let_def)
    also have "\<dots> = (if even (z div n) then odd ?inv else even ?inv)"
      by (simp only: h1 h2 h3)
    also have "\<dots> = odd (z div n + ?inv)" by simp
    finally show ?thesis using False by simp
  qed
qed

lemma filter_blank_shapes:
  assumes "distinct (A @ 0 # B @ t # C)"
  shows "filter (\<lambda>v. v \<noteq> 0) (A @ 0 # B @ t # C) = A @ B @ t # C"
    and "filter (\<lambda>v. v \<noteq> 0) (A @ t # B @ 0 # C) = A @ t # B @ C"
    and "t \<notin> set B"
proof -
  have "0 \<notin> set A" "0 \<notin> set B" "0 \<notin> set C" "t \<noteq> 0" using assms by auto
  then have f: "filter (\<lambda>v. v \<noteq> 0) A = A" "filter (\<lambda>v. v \<noteq> 0) B = B" "filter (\<lambda>v. v \<noteq> 0) C = C"
    by (auto simp: filter_id_conv)
  show "filter (\<lambda>v. v \<noteq> 0) (A @ 0 # B @ t # C) = A @ B @ t # C"
    using f \<open>t \<noteq> 0\<close> by simp
  show "filter (\<lambda>v. v \<noteq> 0) (A @ t # B @ 0 # C) = A @ t # B @ C"
    using f \<open>t \<noteq> 0\<close> by simp
  show "t \<notin> set B" using assms by auto
qed

lemma swap_blank_parity:
  assumes d: "distinct b" and z: "z < length b" "b ! z = 0" and i: "i < length b" "i \<noteq> z"
  shows "even (inversions_spec (filter (\<lambda>v. v \<noteq> 0) b)
               + inversions_spec (filter (\<lambda>v. v \<noteq> 0) (swap i z b)))
         \<longleftrightarrow> odd (if i < z then z - i else i - z)"
proof (cases "i < z")
  case True
  define t where "t = b ! i"
  obtain A B C where s: "b = A @ t # B @ 0 # C" "length B = z - i - 1"
    "swap i z b = A @ 0 # B @ t # C"
    using swap_decomp[OF True z(1)] unfolding t_def z(2) by blast
  have "distinct (A @ t # B @ 0 # C)" using d s(1) by simp
  then have d': "distinct (A @ 0 # B @ t # C)" by auto
  have f1: "filter (\<lambda>v. v \<noteq> 0) b = A @ t # B @ C"
    unfolding s(1) by (rule filter_blank_shapes(2)[OF d'])
  have f2: "filter (\<lambda>v. v \<noteq> 0) (swap i z b) = A @ B @ t # C"
    unfolding s(3) by (rule filter_blank_shapes(1)[OF d'])
  have "even (inversions_spec (A @ B @ t # C) + inversions_spec (A @ t # B @ C))
      \<longleftrightarrow> even (length B)"
    using filter_blank_shapes(3)[OF d'] by (rule inversions_move)
  then show ?thesis unfolding f1 f2 s(2) using True by (simp add: add.commute)
next
  case False
  then have lt: "z < i" using i by simp
  define t where "t = b ! i"
  obtain A B C where s: "b = A @ 0 # B @ t # C" "length B = i - z - 1"
    "swap i z b = A @ t # B @ 0 # C"
    using swap_decomp[OF lt i(1)] unfolding t_def z(2) by blast
  have d': "distinct (A @ 0 # B @ t # C)" using d s(1) by simp
  have f1: "filter (\<lambda>v. v \<noteq> 0) b = A @ B @ t # C"
    unfolding s(1) by (rule filter_blank_shapes(1)[OF d'])
  have f2: "filter (\<lambda>v. v \<noteq> 0) (swap i z b) = A @ t # B @ C"
    unfolding s(3) by (rule filter_blank_shapes(2)[OF d'])
  have "even (inversions_spec (A @ B @ t # C) + inversions_spec (A @ t # B @ C))
      \<longleftrightarrow> even (length B)"
    using filter_blank_shapes(3)[OF d'] by (rule inversions_move)
  then show ?thesis unfolding f1 f2 s(2) using lt by simp
qed

lemma wf_blank:
  assumes "wf_board n b" "0 < n"
  shows "\<exists>z. z < length b \<and> b ! z = 0 \<and> indexOf b 0 = int z"
proof -
  have "0 \<in> set b" using assms by (simp add: wf_board_def)
  then have m: "0 \<le> indexOf b 0" "indexOf b 0 < int (length b)" "b ! nat (indexOf b 0) = 0"
    using indexOf_mem[of 0 b] by simp_all
  then have "nat (indexOf b 0) < length b \<and> b ! nat (indexOf b 0) = 0
      \<and> indexOf b 0 = int (nat (indexOf b 0))" by simp
  then show ?thesis by blast
qed

lemma wf_swap:
  "wf_board n b \<Longrightarrow> i < length b \<Longrightarrow> j < length b \<Longrightarrow> wf_board n (swap i j b)"
  using mset_swap'[of i b j] wf_board_mset by blast

lemma slide_SomeD:
  assumes wf: "wf_board n b" and s: "slide n b i = Some b'"
  shows "\<exists>z. z < length b \<and> b ! z = 0 \<and> i < length b \<and> manhattan n i z = 1 \<and> 0 < n
           \<and> b' = swap i z b \<and> wf_board n b' \<and> b' ! i = 0 \<and> i \<noteq> z"
proof -
  have i: "i < length b" and c: "canSwap n (int i) (indexOf b 0)"
    and b': "b' = swap i (nat (indexOf b 0)) b"
    using s by (auto simp: slide_def Let_def split: if_splits)
  have n: "0 < n" using c by (cases "n = 0") (auto simp: canSwap_def)
  obtain z where z: "z < length b" "b ! z = 0" "indexOf b 0 = int z"
    using wf_blank[OF wf n] by blast
  have m: "manhattan n i z = 1" using c n by (simp add: z(3) canSwap_manhattan)
  then have ne: "i \<noteq> z" by (auto simp: manhattan_def)
  have b'': "b' = swap i z b" using b' z(3) by simp
  have "wf_board n b'" unfolding b'' using wf i z(1) by (rule wf_swap)
  moreover have "b' ! i = 0" unfolding b'' using i z by (simp add: swap_nth ne)
  ultimately show ?thesis using z i m n b'' ne by blast
qed

lemma slide_SomeI:
  assumes wf: "wf_board n b" and z: "z < length b" "b ! z = 0"
    and i: "i < length b" and m: "manhattan n i z = 1" and n: "0 < n"
  shows "slide n b i = Some (swap i z b)"
proof -
  have idx: "indexOf b 0 = int z"
    using wf z by (auto simp: wf_board_def intro: indexOf_unique)
  show ?thesis using i m n by (simp add: slide_def idx canSwap_manhattan)
qed

lemma manhattan_sym: "manhattan n i z = manhattan n z i"
  by (simp add: manhattan_def abs_minus_commute)

lemma swap_swap: "i < length b \<Longrightarrow> z < length b \<Longrightarrow> swap z i (swap i z b) = b"
  by (rule nth_equalityI) (auto simp: swap_nth)

lemma slide_back:
  assumes wf: "wf_board n b" and s: "slide n b i = Some b'"
  shows "\<exists>z. slide n b' z = Some b"
proof -
  obtain z where z: "z < length b" "b ! z = 0" "i < length b" "manhattan n i z = 1" "0 < n"
    "b' = swap i z b" "wf_board n b'" "b' ! i = 0"
    using slide_SomeD[OF wf s] by blast
  have "slide n b' z = Some (swap z i b')"
    using z by (intro slide_SomeI) (auto simp: manhattan_sym)
  then show ?thesis using z by (auto simp: swap_swap)
qed

lemma isSolvable_slide:
  assumes wf: "wf_board n b" and s: "slide n b i = Some b'"
  shows "isSolvable b' n = isSolvable b n"
proof -
  obtain z where z: "z < length b" "b ! z = 0" "i < length b" "manhattan n i z = 1" "0 < n"
    "b' = swap i z b" "wf_board n b'" "b' ! i = 0" "i \<noteq> z"
    using slide_SomeD[OF wf s] by blast
  let ?inv = "inversions_spec (filter (\<lambda>v. v \<noteq> 0) b)"
  let ?inv' = "inversions_spec (filter (\<lambda>v. v \<noteq> 0) b')"
  have d: "distinct b" "distinct b'" using wf z(7) by (simp_all add: wf_board_def)
  have l': "i < length b'" using z by simp
  have p: "isSolvable b n = (if odd n then even ?inv else odd (z div n + ?inv))"
    using z d by (intro isSolvable_parity) auto
  have p': "isSolvable b' n = (if odd n then even ?inv' else odd (i div n + ?inv'))"
    using z d l' by (intro isSolvable_parity) auto
  have par: "even (?inv + ?inv') \<longleftrightarrow> odd (if i < z then z - i else i - z)"
    unfolding z(6) using d(1) z(1,2,3,9) by (rule swap_blank_parity)
  consider (h) "i div n = z div n" "i = z + 1 \<or> z = i + 1"
    | (down) "i = z + n" "i div n = z div n + 1"
    | (up) "z = i + n" "z div n = i div n + 1"
    using manhattan_cases[OF z(5) z(4)] by blast
  then show ?thesis
  proof cases
    case h
    then have "even (?inv + ?inv')" using par by auto
    then show ?thesis unfolding p p' h(1) by auto
  next
    case down
    then have "even (?inv + ?inv') \<longleftrightarrow> odd n" using par by simp
    then show ?thesis unfolding p p' down(2) by auto
  next
    case up
    then have "even (?inv + ?inv') \<longleftrightarrow> odd n" using par by simp
    then show ?thesis unfolding p p' up(2) by auto
  qed
qed

lemma reach_refl: "reach n b b"
  unfolding reach_def by (rule exI[of _ "[]"]) simp

lemma slides_append:
  "slides n b (xs @ ys) = (case slides n b xs of None \<Rightarrow> None | Some b' \<Rightarrow> slides n b' ys)"
  by (induction xs arbitrary: b) (auto split: option.splits)

lemma reach_trans: "reach n a b \<Longrightarrow> reach n b c \<Longrightarrow> reach n a c"
  unfolding reach_def
proof -
  assume "\<exists>is. slides n a is = Some b" "\<exists>is. slides n b is = Some c"
  then obtain xs ys where "slides n a xs = Some b" "slides n b ys = Some c" by blast
  then have "slides n a (xs @ ys) = Some c" by (simp add: slides_append)
  then show "\<exists>is. slides n a is = Some c" by blast
qed

lemma reach_slide: "slide n b i = Some b' \<Longrightarrow> reach n b b'"
  unfolding reach_def by (rule exI[of _ "[i]"]) simp

lemma slides_wf:
  "wf_board n b \<Longrightarrow> slides n b xs = Some b' \<Longrightarrow> wf_board n b'"
proof (induction xs arbitrary: b)
  case Nil
  then show ?case by simp
next
  case (Cons i xs)
  then obtain b1 where b1: "slide n b i = Some b1" "slides n b1 xs = Some b'"
    by (auto split: option.splits)
  have "wf_board n b1" using slide_SomeD[OF Cons.prems(1) b1(1)] by blast
  then show ?case using Cons.IH b1(2) by blast
qed

lemma reach_wf: "wf_board n b \<Longrightarrow> reach n b b' \<Longrightarrow> wf_board n b'"
  unfolding reach_def using slides_wf by blast

lemma slides_sym:
  "wf_board n b \<Longrightarrow> slides n b xs = Some b' \<Longrightarrow> reach n b' b"
proof (induction xs arbitrary: b)
  case Nil
  then show ?case by (simp add: reach_refl)
next
  case (Cons i xs)
  then obtain b1 where b1: "slide n b i = Some b1" "slides n b1 xs = Some b'"
    by (auto split: option.splits)
  have wf1: "wf_board n b1" using slide_SomeD[OF Cons.prems(1) b1(1)] by blast
  have "reach n b' b1" using Cons.IH[OF wf1 b1(2)] .
  moreover have "reach n b1 b" using slide_back[OF Cons.prems(1) b1(1)] reach_slide by blast
  ultimately show ?case by (rule reach_trans)
qed

lemma reach_sym: "wf_board n b \<Longrightarrow> reach n b b' \<Longrightarrow> reach n b' b"
  unfolding reach_def[of n b b'] using slides_sym by blast

lemma isSolvable_slides:
  "wf_board n b \<Longrightarrow> slides n b xs = Some b' \<Longrightarrow> isSolvable b' n = isSolvable b n"
proof (induction xs arbitrary: b)
  case Nil
  then show ?case by simp
next
  case (Cons i xs)
  then obtain b1 where b1: "slide n b i = Some b1" "slides n b1 xs = Some b'"
    by (auto split: option.splits)
  have wf1: "wf_board n b1" using slide_SomeD[OF Cons.prems(1) b1(1)] by blast
  show ?case using Cons.IH[OF wf1 b1(2)] isSolvable_slide[OF Cons.prems(1) b1(1)] by simp
qed

lemma isSolvable_reach: "wf_board n b \<Longrightarrow> reach n b b' \<Longrightarrow> isSolvable b' n = isSolvable b n"
  unfolding reach_def using isSolvable_slides by blast

lemma isSolvable_makeSolved: "0 < n \<Longrightarrow> isSolvable (makeSolved n) n"
proof -
  assume n: "0 < n"
  let ?b = "makeSolved n"
  have wf: "wf_board n ?b" by (rule wf_makeSolved)
  have z: "n * n - 1 < length ?b" "?b ! (n * n - 1) = 0"
    using n by (simp_all add: length_makeSolved makeSolved_nth)
  have f: "filter (\<lambda>v. v \<noteq> 0) ?b = map Suc [0 ..< n * n - 1]"
    unfolding makeSolved_eq[OF n] by (simp add: filter_map comp_def)
  have "sorted (map Suc [0 ..< n * n - 1])"
    by (simp add: sorted_map sorted_wrt_mono_rel[of _ "(<)"] strict_sorted_iff[symmetric])
  then have inv: "inversions_spec (filter (\<lambda>v. v \<noteq> 0) ?b) = 0"
    unfolding f by (rule inversions_spec_sorted)
  have row: "(n * n - 1) div n = n - 1"
  proof -
    obtain m where m: "n = Suc m" using n by (cases n) auto
    have e: "n * n - 1 = m * n + m" unfolding m by simp
    have "m < n" "n \<noteq> 0" unfolding m by simp_all
    then have "(m * n + m) div n = m" by simp
    then have "(n * n - 1) div n = m" by (simp only: e)
    moreover have "n - 1 = m" unfolding m by simp
    ultimately show ?thesis by (simp only:)
  qed
  have "isSolvable ?b n = (if odd n then even (0::nat) else odd (n - 1 + 0))"
    using isSolvable_parity[OF n _ z] wf inv row by (simp add: wf_board_def)
  then show ?thesis using n by auto
qed

text \<open>On a well-formed board a legal move is the exchange of the blank with a cell at
  Manhattan distance 1.\<close>

lemma slide_spec:
  assumes "wf_board n b" "z < length b" "b ! z = 0" "0 < n"
  shows "slide n b i = (if i < length b \<and> manhattan n i z = 1 then Some (swap i z b) else None)"
proof -
  have idx: "indexOf b 0 = int z"
    using assms by (auto simp: wf_board_def intro: indexOf_unique)
  show ?thesis using assms(4) by (simp add: slide_def idx canSwap_manhattan)
qed

subsection \<open>Every board of the right parity can be solved\<close>

lemma sn_div: "0 < n \<Longrightarrow> sn n k div n = k div n"
  by (simp add: sn_def)

lemma sn_mod: "0 < n \<Longrightarrow> sn n k mod n = (if even (k div n) then k mod n else n - 1 - k mod n)"
  by (simp add: sn_def)

lemma sn_invol: "0 < n \<Longrightarrow> sn n (sn n k) = k"
proof -
  assume n: "0 < n"
  have c: "k mod n < n" using n by simp
  have "sn n (sn n k) = (k div n) * n + (if even (k div n) then sn n k mod n else n - 1 - sn n k mod n)"
    unfolding sn_def[of n "sn n k"] sn_div[OF n] by simp
  also have "\<dots> = (k div n) * n + k mod n"
    using c by (simp add: sn_mod[OF n])
  finally show ?thesis by simp
qed

lemma sn_lt: "0 < n \<Longrightarrow> k < n * n \<Longrightarrow> sn n k < n * n"
proof -
  assume n: "0 < n" and k: "k < n * n"
  have "sn n k div n < n" using k n by (simp add: sn_div less_mult_imp_div_less)
  then show ?thesis using n by (metis div_less_iff_less_mult mult.commute)
qed

lemma sn_eq_iff: "0 < n \<Longrightarrow> sn n i = q \<longleftrightarrow> i = sn n q"
  using sn_invol by metis

lemma manhattan_rowcol:
  assumes "\<bar>int (i div n) - int (z div n)\<bar> + \<bar>int (i mod n) - int (z mod n)\<bar> = 1"
  shows "manhattan n i z = 1"
  using assms by (simp add: manhattan_def)

lemma sn_adj_next:
  assumes n: "0 < n"
  shows "manhattan n (sn n k) (sn n (Suc k)) = 1"
proof (cases "Suc (k mod n) = n")
  case True
  then have d: "Suc k div n = Suc (k div n)" and m: "Suc k mod n = 0"
    using n by (simp_all add: div_Suc mod_Suc)
  have km: "k mod n = n - 1" using True by simp
  show ?thesis
    unfolding manhattan_def sn_div[OF n] sn_mod[OF n] d m km by simp
next
  case False
  then have d: "Suc k div n = k div n" and m: "Suc k mod n = Suc (k mod n)"
    using n by (simp_all add: div_Suc mod_Suc)
  have c: "Suc (k mod n) < n" using False n by (metis Suc_lessI mod_less_divisor)
  show ?thesis
    unfolding manhattan_def sn_div[OF n] sn_mod[OF n] d m using c by auto
qed

lemma sn_adj_mirror:
  assumes m: "1 \<le> m" and d: "d < n"
  shows "manhattan n (sn n (m * n - 1 - d)) (sn n (m * n + d)) = 1"
proof -
  have n: "0 < n" using d by simp
  obtain m' where m': "m = Suc m'" using m by (cases m) auto
  define k1 where "k1 = m * n - 1 - d"
  define k2 where "k2 = m * n + d"
  have k1: "k1 = m' * n + (n - 1 - d)" unfolding k1_def m' using d by simp
  have c1: "n - 1 - d < n" using n by simp
  have d1: "k1 div n = m'" and r1: "k1 mod n = n - 1 - d"
    unfolding k1 using c1 by simp_all
  have d2m: "k2 div n = m" and r2: "k2 mod n = d"
    unfolding k2_def using d by simp_all
  have d2: "k2 div n = Suc m'" using d2m m' by (simp only:)
  have e: "n - 1 - (n - 1 - d) = d" using d by simp
  have "manhattan n (sn n k1) (sn n k2) = 1"
    unfolding manhattan_def sn_div[OF n] sn_mod[OF n] d1 r1 d2 r2 using e d by auto
  then show ?thesis unfolding k1_def k2_def .
qed

lemma length_tosnake [simp]: "length (tosnake n b) = length b"
  by (simp add: tosnake_def)

lemma tosnake_nth: "k < length b \<Longrightarrow> tosnake n b ! k = b ! sn n k"
  by (simp add: tosnake_def)

lemma tosnake_invol:
  assumes n: "0 < n" and l: "length b = n * n"
  shows "tosnake n (tosnake n b) = b"
proof (rule nth_equalityI)
  show "length (tosnake n (tosnake n b)) = length b" by simp
next
  fix i assume "i < length (tosnake n (tosnake n b))"
  then have i: "i < n * n" using l by simp
  then have s: "sn n i < n * n" using n by (intro sn_lt)
  show "tosnake n (tosnake n b) ! i = b ! i"
    using i s l by (simp add: tosnake_nth sn_invol[OF n])
qed

lemma tosnake_swap:
  assumes n: "0 < n" and l: "length S = n * n" and p: "p < n * n" and q: "q < n * n"
  shows "tosnake n (swap p q S) = swap (sn n p) (sn n q) (tosnake n S)"
proof (rule nth_equalityI)
  show "length (tosnake n (swap p q S)) = length (swap (sn n p) (sn n q) (tosnake n S))" by simp
next
  fix i assume "i < length (tosnake n (swap p q S))"
  then have i: "i < n * n" using l by simp
  then have s: "sn n i < n * n" using n by (intro sn_lt)
  have sp: "sn n p < n * n" and sq: "sn n q < n * n" using n p q by (auto intro: sn_lt)
  have e1: "sn n i = q \<longleftrightarrow> i = sn n q" and e2: "sn n i = p \<longleftrightarrow> i = sn n p"
    using sn_eq_iff[OF n] by auto
  have "tosnake n (swap p q S) ! i = swap p q S ! sn n i"
    using i l by (simp add: tosnake_nth)
  also have "\<dots> = (if sn n i = q then S ! p else if sn n i = p then S ! q else S ! sn n i)"
    using p q s l by (simp add: swap_nth)
  also have "\<dots> = (if i = sn n q then tosnake n S ! sn n p
                     else if i = sn n p then tosnake n S ! sn n q else tosnake n S ! i)"
    using sp sq i l by (simp add: e1 e2 tosnake_nth sn_invol[OF n])
  also have "\<dots> = swap (sn n p) (sn n q) (tosnake n S) ! i"
    using sp sq i l by (simp add: swap_nth)
  finally show "tosnake n (swap p q S) ! i = swap (sn n p) (sn n q) (tosnake n S) ! i" .
qed

lemma sn_image: "0 < n \<Longrightarrow> sn n ` {0 ..< n * n} = {0 ..< n * n}"
proof (intro equalityI subsetI)
  fix x assume n: "0 < n" and "x \<in> sn n ` {0 ..< n * n}"
  then show "x \<in> {0 ..< n * n}" using sn_lt[OF n] by auto
next
  fix x assume n: "0 < n" and x: "x \<in> {0 ..< n * n}"
  then have "sn n x \<in> {0 ..< n * n}" using sn_lt[OF n] by auto
  moreover have "x = sn n (sn n x)" using sn_invol[OF n] by simp
  ultimately show "x \<in> sn n ` {0 ..< n * n}" by blast
qed

lemma wf_tosnake:
  assumes wf: "wf_board n b"
  shows "wf_board n (tosnake n b)"
proof (cases "n = 0")
  case True
  then show ?thesis using wf by (simp add: wf_board_def tosnake_def)
next
  case False
  then have n: "0 < n" by simp
  have l: "length b = n * n" using wf by (rule wf_board_length)
  have d: "distinct b" using wf by (simp add: wf_board_def)
  have inj: "inj_on (\<lambda>k. b ! sn n k) {0 ..< n * n}"
  proof (rule inj_onI)
    fix x y assume x: "x \<in> {0 ..< n * n}" and y: "y \<in> {0 ..< n * n}"
      and e: "b ! sn n x = b ! sn n y"
    have "sn n x < length b" "sn n y < length b" using x y l sn_lt[OF n] by auto
    then have "sn n x = sn n y" using e d by (simp add: nth_eq_iff_index_eq)
    then show "x = y" using sn_invol[OF n] by metis
  qed
  have dist: "distinct (tosnake n b)"
    unfolding tosnake_def l using inj by (simp add: distinct_map)
  have "set (tosnake n b) = (\<lambda>k. b ! sn n k) ` {0 ..< n * n}"
    unfolding tosnake_def l by simp
  also have "\<dots> = (\<lambda>i. b ! i) ` (sn n ` {0 ..< n * n})" by (simp add: image_image)
  also have "\<dots> = (\<lambda>i. b ! i) ` {0 ..< length b}" using sn_image[OF n] l by simp
  also have "\<dots> = set b" by (metis atLeast0LessThan nth_image take_all order_refl)
  finally show ?thesis using dist wf by (simp add: wf_board_def)
qed

lemma snake_move:
  assumes wf: "wf_board n S" and n: "0 < n" and p: "p < n * n" "S ! p = 0" and q: "q < n * n"
    and adj: "manhattan n (sn n q) (sn n p) = 1"
  shows "sreach n S (swap q p S)"
proof -
  have l: "length S = n * n" using wf by (rule wf_board_length)
  let ?b = "tosnake n S"
  have wfb: "wf_board n ?b" using wf by (rule wf_tosnake)
  have sp: "sn n p < length ?b" and sq: "sn n q < length ?b" using n p q l by (auto intro: sn_lt)
  have z: "?b ! sn n p = 0" using sp p l by (simp add: tosnake_nth sn_invol[OF n])
  have "slide n ?b (sn n q) = Some (swap (sn n q) (sn n p) ?b)"
    using wfb sp z sq adj n by (rule slide_SomeI)
  then have "slide n ?b (sn n q) = Some (tosnake n (swap q p S))"
    using tosnake_swap[OF n l q(1) p(1)] by simp
  then show ?thesis unfolding sreach_def by (rule reach_slide)
qed

lemma swap_shape:
  "swap (length A) (length A + 1 + length B) (A @ x # B @ y # C) = A @ y # B @ x # C"
  "swap (length A + 1 + length B) (length A) (A @ x # B @ y # C) = A @ y # B @ x # C"
proof -
  have s1: "(A @ u # B @ v # C)[length A := w] = A @ w # B @ v # C" for u v w
    by (simp add: list_update_append)
  have s2: "(A @ u # B @ v # C)[length A + 1 + length B := w] = A @ u # B @ w # C" for u v w
    by (simp add: list_update_append)
  have n1: "(A @ x # B @ y # C) ! length A = x" by simp
  have n2: "(A @ x # B @ y # C) ! (length A + 1 + length B) = y"
    by (simp add: nth_append)
  show "swap (length A) (length A + 1 + length B) (A @ x # B @ y # C) = A @ y # B @ x # C"
    unfolding swap_def n1 n2 s1 s2 by (rule refl)
  show "swap (length A + 1 + length B) (length A) (A @ x # B @ y # C) = A @ y # B @ x # C"
    unfolding swap_def n1 n2 s2 s1 by (rule refl)
qed

lemma snake_move_shape:
  assumes wf: "wf_board n (A @ 0 # B @ t # C)" and n: "0 < n"
    and adj: "manhattan n (sn n (length A + 1 + length B)) (sn n (length A)) = 1"
  shows "sreach n (A @ 0 # B @ t # C) (A @ t # B @ 0 # C)"
proof -
  let ?S = "A @ 0 # B @ t # C"
  have l: "length ?S = n * n" using wf by (rule wf_board_length)
  have p: "length A < n * n" "?S ! length A = 0" using l by auto
  have q: "length A + 1 + length B < n * n" using l by auto
  have "sreach n ?S (swap (length A + 1 + length B) (length A) ?S)"
    using wf n p q adj by (rule snake_move)
  then show ?thesis by (simp only: swap_shape)
qed

lemma sreach_refl: "sreach n S S"
  unfolding sreach_def by (rule reach_refl)

lemma sreach_trans: "sreach n S1 S2 \<Longrightarrow> sreach n S2 S3 \<Longrightarrow> sreach n S1 S3"
  unfolding sreach_def by (rule reach_trans)

lemma sreach_sym: "wf_board n S \<Longrightarrow> sreach n S S' \<Longrightarrow> sreach n S' S"
  unfolding sreach_def using reach_sym wf_tosnake by blast

lemma blank_right:
  assumes wf: "wf_board n (A @ 0 # t # C)" and n: "0 < n"
  shows "sreach n (A @ 0 # t # C) (A @ t # 0 # C)"
proof -
  have adj: "manhattan n (sn n (length A + 1 + length ([]::nat list))) (sn n (length A)) = 1"
    using sn_adj_next[OF n, of "length A"] by (simp add: manhattan_sym)
  show ?thesis using snake_move_shape[of n A "[]" t C, OF _ n adj] wf by simp
qed

lemma blank_walk:
  assumes n: "0 < n"
  shows "wf_board n (A @ 0 # B @ C) \<Longrightarrow> sreach n (A @ 0 # B @ C) (A @ B @ 0 # C)"
proof (induction B arbitrary: A)
  case Nil
  then show ?case by (simp add: sreach_refl)
next
  case (Cons t B)
  have wf1: "wf_board n (A @ 0 # t # B @ C)" using Cons.prems by simp
  have s1: "sreach n (A @ 0 # t # B @ C) (A @ t # 0 # B @ C)"
    using wf1 n by (rule blank_right)
  have wf2: "wf_board n ((A @ [t]) @ 0 # B @ C)"
    using wf1 by (rule wf_board_mset) simp
  have s2: "sreach n ((A @ [t]) @ 0 # B @ C) ((A @ [t]) @ B @ 0 # C)"
    using wf2 by (rule Cons.IH)
  show ?case using sreach_trans[OF s1] s2 by simp
qed

lemma blank_walk_back:
  assumes n: "0 < n" and wf: "wf_board n (A @ B @ 0 # C)"
  shows "sreach n (A @ B @ 0 # C) (A @ 0 # B @ C)"
proof -
  have wf': "wf_board n (A @ 0 # B @ C)" using wf by (rule wf_board_mset) simp
  show ?thesis using sreach_sym[OF wf' blank_walk[OF n wf']] .
qed

lemma blank_mirror:
  assumes wf: "wf_board n (A @ 0 # B @ t # C)"
    and m: "1 \<le> m" and d: "d < n" and lA: "length A = m * n - 1 - d" and lB: "length B = 2 * d"
  shows "sreach n (A @ 0 # B @ t # C) (A @ t # B @ 0 # C)"
proof -
  have n: "0 < n" using d by simp
  obtain m' where "m = Suc m'" using m by (cases m) auto
  then have "m * n = n + m' * n" by simp
  then have "d + 1 \<le> m * n" using d by linarith
  then have e: "m * n - 1 - d + 1 + 2 * d = m * n + d" by simp
  have "manhattan n (sn n (m * n + d)) (sn n (m * n - 1 - d)) = 1"
    by (subst manhattan_sym) (rule sn_adj_mirror[OF m d])
  then have adj: "manhattan n (sn n (length A + 1 + length B)) (sn n (length A)) = 1"
    by (simp only: lA lB e)
  show ?thesis using wf n adj by (rule snake_move_shape)
qed

lemma conn_refl: "wf_board n (T @ [0]) \<Longrightarrow> conn n T T"
  by (simp add: conn_def sreach_refl)

lemma conn_wf2: "conn n T T' \<Longrightarrow> wf_board n (T' @ [0])"
  unfolding conn_def using wf_board_mset[of n "T @ [0]" "T' @ [0]"] by simp

lemma conn_trans: "conn n T1 T2 \<Longrightarrow> conn n T2 T3 \<Longrightarrow> conn n T1 T3"
  unfolding conn_def using sreach_trans by auto

lemma conn_sym: "conn n T T' \<Longrightarrow> conn n T' T"
  using conn_wf2[of n T T'] unfolding conn_def using sreach_sym by auto

lemma conn_rotate:
  assumes wf: "wf_board n ((A @ B @ t # C) @ [0])"
    and m: "1 \<le> m" and d: "d < n" and lA: "length A = m * n - 1 - d" and lB: "length B = 2 * d"
  shows "conn n (A @ B @ t # C) (A @ t # B @ C)"
proof -
  have n: "0 < n" using d by simp
  have wf0: "wf_board n (A @ (B @ t # C) @ 0 # [])" using wf by simp
  have s1: "sreach n (A @ (B @ t # C) @ 0 # []) (A @ 0 # (B @ t # C) @ [])"
    using n wf0 by (rule blank_walk_back)
  have wf1: "wf_board n (A @ 0 # B @ t # C)" using wf by (rule wf_board_mset) simp
  have s2: "sreach n (A @ 0 # B @ t # C) (A @ t # B @ 0 # C)"
    using wf1 m d lA lB by (rule blank_mirror)
  have wf2: "wf_board n ((A @ t # B) @ 0 # C @ [])" using wf by (rule wf_board_mset) simp
  have s3: "sreach n ((A @ t # B) @ 0 # C @ []) ((A @ t # B) @ C @ 0 # [])"
    using n wf2 by (rule blank_walk)
  have "sreach n ((A @ B @ t # C) @ [0]) ((A @ t # B @ C) @ [0])"
    using sreach_trans[OF sreach_trans[OF s1 _] _] s2 s3 by simp
  then show ?thesis using wf by (simp add: conn_def)
qed

lemma conn_wf1: "conn n T T' \<Longrightarrow> wf_board n (T @ [0])"
  by (simp add: conn_def)

lemma wf_tiles_length: "wf_board n (T @ [0]) \<Longrightarrow> length T + 1 = n * n"
  using wf_board_length[of n "T @ [0]"] by simp

lemma rot3_level:
  assumes m: "1 \<le> m" "m < n"
  shows "1 \<le> d \<Longrightarrow> d < n \<Longrightarrow> m * n - 1 - d \<le> k \<Longrightarrow> k + 2 \<le> m * n - 1 + d \<Longrightarrow>
         length P = k \<Longrightarrow> wf_board n ((P @ x # y # z # Q) @ [0]) \<Longrightarrow>
         conn n (P @ x # y # z # Q) (P @ z # x # y # Q)"
proof (induction d arbitrary: k P x y z Q)
  case 0
  then show ?case by simp
next
  case (Suc d)
  obtain m' where m': "m = Suc m'" using m by (cases m) auto
  have mn: "m * n = n + m' * n" unfolding m' by simp
  have wf: "wf_board n ((P @ x # y # z # Q) @ [0])" by fact
  have len: "length P + 3 + length Q + 1 = n * n" using wf_tiles_length[OF wf] by simp
  have mle: "m * n + n \<le> n * n"
  proof -
    have "Suc m \<le> n" using m by simp
    then have "Suc m * n \<le> n * n" by (intro mult_le_mono1)
    then show ?thesis by simp
  qed
  show ?case
  proof (cases "d = 0")
    case True
    then have k: "k = m * n - 1 - 1" using Suc.prems mn by simp
    have "conn n (P @ [x, y] @ z # Q) (P @ z # [x, y] @ Q)"
    proof (rule conn_rotate[where m=m and d=1])
      show "wf_board n ((P @ [x, y] @ z # Q) @ [0])" using wf by simp
      show "1 \<le> m" by fact
      show "1 < n" using Suc.prems True by simp
      show "length P = m * n - 1 - 1" using Suc.prems(5) k by simp
      show "length [x, y] = 2 * 1" by simp
    qed
    then show ?thesis by simp
  next
    case False
    then have d1: "1 \<le> d" by simp
    have dn: "d < n" "Suc d < n" using Suc.prems by simp_all
    have big: "d + 2 \<le> m * n" using mn dn by linarith
    consider (mid) "m * n - 1 - d \<le> k" "k + 2 \<le> m * n - 1 + d"
      | (low) "k = m * n - 1 - Suc d"
      | (high) "k + 2 = m * n - 1 + Suc d"
      using Suc.prems(3,4) by linarith
    then show ?thesis
    proof cases
      case mid
      show ?thesis using Suc.IH[OF d1 dn(1) mid Suc.prems(5) wf] .
    next
      case low
      have lq: "2 * d \<le> length Q" using len low Suc.prems(5) mle big dn by linarith
      define W where "W = take (2 * d) Q"
      define C where "C = drop (2 * d) Q"
      have Q: "Q = W @ C" and lW: "length W = 2 * d" unfolding W_def C_def using lq by simp_all
      have "W \<noteq> []" using lW d1 by auto
      then obtain W' w where W: "W = W' @ [w]" by (metis rev_exhaust)
      have lW': "length W' + 1 = 2 * d" using lW W by simp
      have lP: "length P = m * n - 1 - Suc d" using Suc.prems(5) low by simp
      have T: "P @ x # y # z # Q = P @ (x # y # z # W') @ w # C" unfolding Q W by simp
      have wfT: "wf_board n ((P @ (x # y # z # W') @ w # C) @ [0])" using wf T by simp
      have c1: "conn n (P @ (x # y # z # W') @ w # C) (P @ w # (x # y # z # W') @ C)"
        using wfT m(1) Suc.prems(2) lP
      proof (rule conn_rotate)
        show "length (x # y # z # W') = 2 * Suc d" using lW' by simp
      qed
      have wf2: "wf_board n (((P @ [w]) @ x # y # z # W' @ C) @ [0])"
        using conn_wf2[OF c1] by simp
      have c2: "conn n ((P @ [w]) @ x # y # z # W' @ C) ((P @ [w]) @ z # x # y # W' @ C)"
      proof (rule Suc.IH[OF d1 dn(1) _ _ _ wf2])
        show "m * n - 1 - d \<le> Suc k" using low big by simp
        show "Suc k + 2 \<le> m * n - 1 + d" using low big d1 by simp
        show "length (P @ [w]) = Suc k" using Suc.prems(5) by simp
      qed
      have wf3: "wf_board n ((P @ (z # x # y # W') @ w # C) @ [0])"
        using wf by (rule wf_board_mset) (simp add: Q W)
      have c3: "conn n (P @ (z # x # y # W') @ w # C) (P @ w # (z # x # y # W') @ C)"
        using wf3 m(1) Suc.prems(2) lP
      proof (rule conn_rotate)
        show "length (z # x # y # W') = 2 * Suc d" using lW' by simp
      qed
      have e1: "P @ w # (x # y # z # W') @ C = (P @ [w]) @ x # y # z # W' @ C" by simp
      have e2: "P @ w # (z # x # y # W') @ C = (P @ [w]) @ z # x # y # W' @ C" by simp
      have s1: "conn n (P @ (x # y # z # W') @ w # C) ((P @ [w]) @ x # y # z # W' @ C)"
        using c1 unfolding e1 .
      have s3: "conn n ((P @ [w]) @ z # x # y # W' @ C) (P @ (z # x # y # W') @ w # C)"
        using conn_sym[OF c3] unfolding e2 .
      have "conn n (P @ (x # y # z # W') @ w # C) (P @ (z # x # y # W') @ w # C)"
        using conn_trans[OF conn_trans[OF s1 c2] s3] .
      then show ?thesis unfolding Q W by simp
    next
      case high
      have kP: "length P = (m * n - 1 - Suc d) + 2 * d" using high Suc.prems(5) big by simp
      define A where "A = take (m * n - 1 - Suc d) P"
      define W where "W = drop (m * n - 1 - Suc d) P"
      have P: "P = A @ W" and lA: "length A = m * n - 1 - Suc d" and lW: "length W = 2 * d"
        unfolding A_def W_def using kP by simp_all
      have "W \<noteq> []" using lW d1 by auto
      then obtain w W' where W: "W = w # W'" by (cases W) auto
      have lW': "length W' + 1 = 2 * d" using lW W by simp
      have wf1: "wf_board n ((A @ (W' @ [x, y, z]) @ w # Q) @ [0])"
        using wf by (rule wf_board_mset) (simp add: P W)
      have c1: "conn n (A @ (W' @ [x, y, z]) @ w # Q) (A @ w # (W' @ [x, y, z]) @ Q)"
        using wf1 m(1) Suc.prems(2) lA
      proof (rule conn_rotate)
        show "length (W' @ [x, y, z]) = 2 * Suc d" using lW' by simp
      qed
      have wf2: "wf_board n (((A @ W') @ x # y # z # w # Q) @ [0])" using wf1 by simp
      have c2: "conn n ((A @ W') @ x # y # z # w # Q) ((A @ W') @ z # x # y # w # Q)"
      proof (rule Suc.IH[OF d1 dn(1) _ _ _ wf2])
        show "length (A @ W') = k - 1" using Suc.prems(5) P W by simp
        show "m * n - 1 - d \<le> k - 1" using high big d1 by simp
        show "k - 1 + 2 \<le> m * n - 1 + d" using high big d1 by simp
      qed
      have wf3: "wf_board n ((A @ (W' @ [z, x, y]) @ w # Q) @ [0])"
        using conn_wf2[OF c2] by simp
      have c3: "conn n (A @ (W' @ [z, x, y]) @ w # Q) (A @ w # (W' @ [z, x, y]) @ Q)"
        using wf3 m(1) Suc.prems(2) lA
      proof (rule conn_rotate)
        show "length (W' @ [z, x, y]) = 2 * Suc d" using lW' by simp
      qed
      have e1: "A @ w # (W' @ [x, y, z]) @ Q = P @ x # y # z # Q" unfolding P W by simp
      have e2: "A @ (W' @ [x, y, z]) @ w # Q = (A @ W') @ x # y # z # w # Q" by simp
      have e3: "(A @ W') @ z # x # y # w # Q = A @ (W' @ [z, x, y]) @ w # Q" by simp
      have e4: "A @ w # (W' @ [z, x, y]) @ Q = P @ z # x # y # Q" unfolding P W by simp
      have s1: "conn n (P @ x # y # z # Q) ((A @ W') @ x # y # z # w # Q)"
        using conn_sym[OF c1] unfolding e1 e2 .
      have s3: "conn n ((A @ W') @ z # x # y # w # Q) (P @ z # x # y # Q)"
        using c3 unfolding e3[symmetric] e4 .
      show ?thesis using conn_trans[OF conn_trans[OF s1 c2] s3] .
    qed
  qed
qed

lemma rot3_all:
  assumes n: "2 \<le> n" and wf: "wf_board n ((P @ x # y # z # Q) @ [0])"
  shows "conn n (P @ x # y # z # Q) (P @ z # x # y # Q)"
proof -
  define k where "k = length P"
  define r where "r = k div n"
  define a where "a = r * n"
  have n0: "0 < n" using n by simp
  have len: "k + 4 \<le> n * n" using wf_tiles_length[OF wf] by (simp add: k_def)
  have a1: "a \<le> k" unfolding a_def r_def by simp
  have a2: "k < a + n" unfolding a_def r_def using n0
    by (metis add.commute div_mult_mod_eq add_less_cancel_left mod_less_divisor mult.commute)
  have rn: "r < n" unfolding r_def using len n0 by (simp add: less_mult_imp_div_less)
  show ?thesis
  proof (cases "r + 2 \<le> n")
    case True
    have mn: "(r + 1) * n = a + n" unfolding a_def by simp
    have k4: "k + 4 \<le> a + n + n"
    proof (cases "n = 2")
      case True
      then have "r = 0" using \<open>r + 2 \<le> n\<close> by simp
      then show ?thesis using len True by (simp add: a_def)
    next
      case False
      then show ?thesis using a2 n by simp
    qed
    show ?thesis
    proof (rule rot3_level[where m="r + 1" and d="n - 1" and k=k])
      show "1 \<le> r + 1" by simp
      show "r + 1 < n" using True by simp
      show "1 \<le> n - 1" using n by simp
      show "n - 1 < n" using n by simp
      show "(r + 1) * n - 1 - (n - 1) \<le> k" unfolding mn using a1 n by simp
      show "k + 2 \<le> (r + 1) * n - 1 + (n - 1)" unfolding mn using k4 n by simp
      show "length P = k" by (simp add: k_def)
      show "wf_board n ((P @ x # y # z # Q) @ [0])" by fact
    qed
  next
    case False
    then have r: "r = n - 1" using rn by simp
    obtain n' where n': "n = Suc n'" using n by (cases n) auto
    have N: "n * n = a + n" unfolding a_def r n' by simp
    have mn: "(n - 1) * n = a" unfolding a_def r by simp
    show ?thesis
    proof (rule rot3_level[where m="n - 1" and d="n - 1" and k=k])
      show "1 \<le> n - 1" using n by simp
      show "n - 1 < n" using n by simp
      show "1 \<le> n - 1" using n by simp
      show "n - 1 < n" using n by simp
      show "(n - 1) * n - 1 - (n - 1) \<le> k" unfolding mn using a1 by simp
      show "k + 2 \<le> (n - 1) * n - 1 + (n - 1)" unfolding mn using len N n by simp
      show "length P = k" by (simp add: k_def)
      show "wf_board n ((P @ x # y # z # Q) @ [0])" by fact
    qed
  qed
qed

lemma bring_front:
  assumes n: "2 \<le> n"
  shows "j < length T \<Longrightarrow> T ! j = x \<Longrightarrow> 3 \<le> length T \<Longrightarrow> wf_board n ((P @ T) @ [0]) \<Longrightarrow>
         \<exists>T1. conn n (P @ T) (P @ x # T1)"
proof (induction j arbitrary: T rule: less_induct)
  case (less j)
  consider (zero) "j = 0" | (one) "j = 1" | (more) "2 \<le> j" by linarith
  then show ?case
  proof cases
    case zero
    then obtain T1 where "T = x # T1" using less.prems by (cases T) auto
    then show ?thesis using conn_refl[OF less.prems(4)] by blast
  next
    case one
    obtain u T' where 1: "T = u # T'" using less.prems(3) by (cases T) auto
    obtain x' T'' where 2: "T' = x' # T''" using less.prems(3) 1 by (cases T') auto
    obtain v V where 3: "T'' = v # V" using less.prems(3) 1 2 by (cases T'') auto
    have x': "x' = x" using less.prems(2) one 1 2 by simp
    have T: "T = u # x # v # V" using 1 2 3 x' by simp
    have wf1: "wf_board n ((P @ u # x # v # V) @ [0])" using less.prems(4) T by simp
    have c1: "conn n (P @ u # x # v # V) (P @ v # u # x # V)" using n wf1 by (rule rot3_all)
    have c2: "conn n (P @ v # u # x # V) (P @ x # v # u # V)"
      using n conn_wf2[OF c1] by (rule rot3_all)
    show ?thesis using conn_trans[OF c1 c2] T by blast
  next
    case more
    define U where "U = take (j - 2) T"
    define R where "R = drop (j - 2) T"
    have TU: "T = U @ R" and lU: "length U = j - 2" unfolding U_def R_def using less.prems(1) by simp_all
    have lR: "3 \<le> length R" unfolding R_def using less.prems(1) more by simp
    obtain u R1 where 1: "R = u # R1" using lR by (cases R) auto
    obtain v R2 where 2: "R1 = v # R2" using lR 1 by (cases R1) auto
    obtain w V where 3: "R2 = w # V" using lR 1 2 by (cases R2) auto
    have jU: "j = length U + 2" using lU more by simp
    have "(U @ u # v # w # V) ! (length U + 2) = w" by (simp add: nth_append)
    then have w: "w = x" using less.prems(2) TU 1 2 3 jU by simp
    have T: "T = U @ u # v # x # V" using TU 1 2 3 w by simp
    have wf1: "wf_board n (((P @ U) @ u # v # x # V) @ [0])" using less.prems(4) T by simp
    have c1: "conn n ((P @ U) @ u # v # x # V) ((P @ U) @ x # u # v # V)"
      using n wf1 by (rule rot3_all)
    let ?T' = "U @ x # u # v # V"
    have wf2: "wf_board n ((P @ ?T') @ [0])" using conn_wf2[OF c1] by simp
    have "\<exists>T1. conn n (P @ ?T') (P @ x # T1)"
    proof (rule less.IH[of "j - 2" ?T'])
      show "j - 2 < j" using more by simp
      show "j - 2 < length ?T'" using lU by simp
      show "?T' ! (j - 2) = x" using lU by (simp add: nth_append)
      show "3 \<le> length ?T'" by simp
      show "wf_board n ((P @ ?T') @ [0])" by fact
    qed
    then obtain T1 where c2: "conn n (P @ ?T') (P @ x # T1)" by blast
    have "conn n (P @ T) (P @ ?T')" using c1 T by simp
    then show ?thesis using conn_trans c2 by blast
  qed
qed

lemma sort_to:
  assumes n: "2 \<le> n"
  shows "2 \<le> length tau \<Longrightarrow> mset T = mset tau \<Longrightarrow> wf_board n ((P @ T) @ [0]) \<Longrightarrow>
         conn n (P @ T) (P @ tau) \<or> conn n (P @ T) (P @ swaplast tau)"
proof (induction tau arbitrary: P T)
  case Nil
  then show ?case by simp
next
  case (Cons x tau)
  have lT: "length T = length (x # tau)" using Cons.prems(2) by (metis size_mset)
  show ?case
  proof (cases "2 \<le> length tau")
    case True
    have "x \<in> set T" using Cons.prems(2) by (metis list.set_intros(1) mset_eq_setD)
    then obtain j where j: "j < length T" "T ! j = x" by (meson in_set_conv_nth)
    have "3 \<le> length T" using lT True by simp
    then obtain T1 where c1: "conn n (P @ T) (P @ x # T1)"
      using bring_front[OF n j _ Cons.prems(3)] by blast
    have "mset (P @ x # T1) = mset (P @ T)" using c1 by (simp add: conn_def)
    then have m1: "mset T1 = mset tau" using Cons.prems(2) by simp
    have wf1: "wf_board n (((P @ [x]) @ T1) @ [0])" using conn_wf2[OF c1] by simp
    have "conn n ((P @ [x]) @ T1) ((P @ [x]) @ tau) \<or> conn n ((P @ [x]) @ T1) ((P @ [x]) @ swaplast tau)"
      using True m1 wf1 by (rule Cons.IH)
    moreover have "swaplast (x # tau) = x # swaplast tau"
      using True by (cases tau rule: swaplast.cases) auto
    ultimately show ?thesis using c1 conn_trans by (metis append.assoc append_Cons append_Nil)
  next
    case False
    then obtain y where tau: "tau = [y]" using Cons.prems(1)
      by (cases tau) (auto simp: Suc_le_eq)
    have "length T = 2" using lT tau by simp
    then obtain a b where ab: "T = [a, b]"
      by (metis (no_types) length_0_conv length_Suc_conv numeral_2_eq_2)
    have "{#a, b#} = {#x, y#}" using Cons.prems(2) tau ab by simp
    then have "(a = x \<and> b = y) \<or> (a = y \<and> b = x)"
      by (auto simp: add_eq_conv_ex)
    then have "T = [x, y] \<or> T = [y, x]" using ab by auto
    then show ?thesis using conn_refl[OF Cons.prems(3)] tau by auto
  qed
qed

lemma isSolvable_transpose_lt:
  assumes n: "0 < n" and wf: "wf_board n b" and lt: "lo < hi" "hi < length b"
    and nz: "b ! lo \<noteq> 0" "b ! hi \<noteq> 0"
  shows "isSolvable (swap lo hi b) n = (\<not> isSolvable b n)"
    and "isSolvable (swap hi lo b) n = (\<not> isSolvable b n)"
proof -
  define x where "x = b ! lo"
  define y where "y = b ! hi"
  obtain A B C where s: "b = A @ x # B @ y # C" "swap lo hi b = A @ y # B @ x # C"
    "swap hi lo b = A @ y # B @ x # C"
    using swap_decomp[OF lt] unfolding x_def y_def by blast
  let ?F = "filter (\<lambda>v. v \<noteq> (0::nat))"
  have xy: "x \<noteq> 0" "y \<noteq> 0" using nz by (simp_all add: x_def y_def)
  have d: "distinct b" using wf by (simp add: wf_board_def)
  have f1: "?F b = ?F A @ x # ?F B @ y # ?F C" unfolding s(1) using xy by simp
  have f2: "?F (A @ y # B @ x # C) = ?F A @ y # ?F B @ x # ?F C" using xy by simp
  have "distinct (?F b)" using d by simp
  then have nin: "x \<notin> set (?F B @ [y])" "y \<notin> set (?F B)" unfolding f1 by auto
  let ?L0 = "?F A @ x # ?F B @ y # ?F C"
  let ?L1 = "?F A @ ?F B @ y # x # ?F C"
  let ?L2 = "?F A @ y # ?F B @ x # ?F C"
  have p1: "even (inversions_spec ?L1 + inversions_spec ?L0) \<longleftrightarrow> even (length (?F B) + 1)"
    using inversions_move[OF nin(1), of "?F A" "?F C"] by simp
  have p2: "even (inversions_spec ?L1 + inversions_spec ?L2) \<longleftrightarrow> even (length (?F B))"
    using inversions_move[OF nin(2), of "?F A" "x # ?F C"] by simp
  have odd: "odd (inversions_spec ?L0 + inversions_spec ?L2)"
    using p1 p2 by (cases "even (length (?F B))") auto
  obtain z where z: "z < length b" "b ! z = 0" using wf_blank[OF wf n] by blast
  have zne: "z \<noteq> lo" "z \<noteq> hi" using z nz by auto
  let ?b' = "swap lo hi b"
  have wf': "wf_board n ?b'" using wf lt by (intro wf_swap) auto
  have z': "z < length ?b'" "?b' ! z = 0" using z zne lt by (simp_all add: swap_nth)
  have q: "isSolvable b n = (if odd n then even (inversions_spec ?L0)
      else odd (z div n + inversions_spec ?L0))"
    using isSolvable_parity[OF n d z] f1 by simp
  have q': "isSolvable ?b' n = (if odd n then even (inversions_spec ?L2)
      else odd (z div n + inversions_spec ?L2))"
    using isSolvable_parity[OF n _ z'] wf' f2 s(2) by (simp add: wf_board_def)
  show 1: "isSolvable (swap lo hi b) n = (\<not> isSolvable b n)"
    unfolding q q' using odd by auto
  show "isSolvable (swap hi lo b) n = (\<not> isSolvable b n)"
    using 1 s(2,3) by simp
qed

lemma isSolvable_transpose:
  assumes n: "0 < n" and wf: "wf_board n b" and c: "c1 < length b" "c2 < length b" "c1 \<noteq> c2"
    and nz: "b ! c1 \<noteq> 0" "b ! c2 \<noteq> 0"
  shows "isSolvable (swap c1 c2 b) n = (\<not> isSolvable b n)"
proof (cases "c1 < c2")
  case True
  then show ?thesis using isSolvable_transpose_lt(1)[OF n wf True c(2) nz] by simp
next
  case False
  then have "c2 < c1" using c(3) by simp
  then show ?thesis using isSolvable_transpose_lt(2)[OF n wf _ c(1) nz(2,1)] by simp
qed

lemma swaplast_snoc2: "swaplast (U @ [u, v]) = U @ [v, u]"
proof (induction U)
  case Nil
  then show ?case by simp
next
  case (Cons a U)
  obtain y R where 1: "U @ [u, v] = y # R" by (cases "U @ [u, v]") auto
  obtain z zs where 2: "R = z # zs" using 1 by (cases R) (auto simp: Cons_eq_append_conv)
  have "swaplast (a # U @ [u, v]) = a # swaplast (U @ [u, v])" unfolding 1 2 by simp
  then show ?case using Cons by simp
qed

lemma to_tiles:
  assumes wf: "wf_board n b" and n: "0 < n"
  shows "\<exists>T. wf_board n (T @ [0]) \<and> reach n b (tosnake n (T @ [0]))"
proof -
  let ?S = "tosnake n b"
  have wfS: "wf_board n ?S" using wf by (rule wf_tosnake)
  have l: "length b = n * n" using wf by (rule wf_board_length)
  have "0 \<in> set ?S" using wfS n by (simp add: wf_board_def)
  then obtain A B where S: "?S = A @ 0 # B" by (meson split_list)
  have wf1: "wf_board n (A @ 0 # B @ [])" using wfS S by simp
  have "sreach n (A @ 0 # B @ []) (A @ B @ 0 # [])" using n wf1 by (rule blank_walk)
  then have "reach n (tosnake n ?S) (tosnake n ((A @ B) @ [0]))"
    unfolding sreach_def using S by simp
  then have r: "reach n b (tosnake n ((A @ B) @ [0]))" using tosnake_invol[OF n l] by simp
  have "wf_board n ((A @ B) @ [0])" using wf1 by (rule wf_board_mset) simp
  then show ?thesis using r by blast
qed

lemma solvable_reach:
  assumes n: "2 \<le> n" and wf: "wf_board n b" and sv: "isSolvable b n"
  shows "reach n b (makeSolved n)"
proof -
  have n0: "0 < n" using n by simp
  have wfs: "wf_board n (makeSolved n)" by (rule wf_makeSolved)
  obtain T where T: "wf_board n (T @ [0])" "reach n b (tosnake n (T @ [0]))"
    using to_tiles[OF wf n0] by blast
  obtain tau where tau: "wf_board n (tau @ [0])" "reach n (makeSolved n) (tosnake n (tau @ [0]))"
    using to_tiles[OF wfs n0] by blast
  have bk: "reach n (tosnake n (tau @ [0])) (makeSolved n)"
    using wfs tau(2) by (rule reach_sym)
  have "distinct (T @ [0])" "distinct (tau @ [0])" "set (T @ [0]) = set (tau @ [0])"
    using T(1) tau(1) unfolding wf_board_def by simp_all
  then have "mset (T @ [0]) = mset (tau @ [0])"
    by (simp only: set_eq_iff_mset_eq_distinct)
  then have ms: "mset T = mset tau" by simp
  have "2 * 2 \<le> n * n" using n by (intro mult_le_mono) auto
  then have l2: "2 \<le> length tau" using wf_tiles_length[OF tau(1)] by simp
  have wfT: "wf_board n (([] @ T) @ [0])" using T(1) by simp
  consider (a) "conn n T tau" | (b) "conn n T (swaplast tau)"
    using sort_to[OF n l2 ms wfT] by auto
  then show ?thesis
  proof cases
    case a
    then have "reach n (tosnake n (T @ [0])) (tosnake n (tau @ [0]))"
      by (simp add: conn_def sreach_def)
    then show ?thesis using T(2) bk reach_trans by blast
  next
    case b
    let ?b1 = "tosnake n (tau @ [0])"
    let ?b2 = "tosnake n (swaplast tau @ [0])"
    have "reach n (tosnake n (T @ [0])) ?b2" using b by (simp add: conn_def sreach_def)
    then have "reach n b ?b2" using T(2) reach_trans by blast
    then have s2: "isSolvable ?b2 n" using isSolvable_reach[OF wf] sv by simp
    have s1: "isSolvable ?b1 n"
      using isSolvable_reach[OF wfs tau(2)] isSolvable_makeSolved[OF n0] by simp
    have "tau \<noteq> []" using l2 by auto
    then obtain U1 v where 1: "tau = U1 @ [v]" by (metis rev_exhaust)
    have "U1 \<noteq> []" using l2 1 by auto
    then obtain U u where 2: "U1 = U @ [u]" by (metis rev_exhaust)
    have tu: "tau = U @ [u, v]" using 1 2 by simp
    have sl: "swaplast tau = U @ [v, u]" unfolding tu by (rule swaplast_snoc2)
    have lt: "length (tau @ [0]) = n * n" using tau(1) by (rule wf_board_length)
    have p: "length U < n * n" and q: "length U + 1 < n * n" using lt tu by simp_all
    have "swaplast tau @ [0] = swap (length U) (length U + 1 + length ([]::nat list)) (U @ u # [] @ v # [0])"
      unfolding sl swap_shape by simp
    then have sw: "swaplast tau @ [0] = swap (length U) (length U + 1) (tau @ [0])"
      unfolding tu by simp
    have b2: "?b2 = swap (sn n (length U)) (sn n (length U + 1)) ?b1"
      unfolding sw using n0 lt p q by (rule tosnake_swap)
    have wf1: "wf_board n ?b1" using tau(1) by (rule wf_tosnake)
    have c1: "sn n (length U) < length ?b1" and c2: "sn n (length U + 1) < length ?b1"
      using sn_lt[OF n0] p q lt by simp_all
    have ne: "sn n (length U) \<noteq> sn n (length U + 1)"
      using sn_invol[OF n0] by (metis n_not_Suc_n Suc_eq_plus1)
    have d: "distinct (tau @ [0])" using tau(1) by (simp add: wf_board_def)
    then have uv: "u \<noteq> 0" "v \<noteq> 0" unfolding tu by auto
    have v1: "?b1 ! sn n (length U) = u"
      using c1 lt by (simp add: tosnake_nth sn_invol[OF n0] tu nth_append)
    have v2: "?b1 ! sn n (length U + 1) = v"
      using c2 lt by (simp add: tosnake_nth sn_invol[OF n0] tu nth_append)
    have nz1: "?b1 ! sn n (length U) \<noteq> 0" unfolding v1 by (rule uv(1))
    have nz2: "?b1 ! sn n (length U + 1) \<noteq> 0" unfolding v2 by (rule uv(2))
    have "isSolvable ?b2 n = (\<not> isSolvable ?b1 n)"
      unfolding b2 using n0 wf1 c1 c2 ne nz1 nz2 by (rule isSolvable_transpose)
    then show ?thesis using s1 s2 by simp
  qed
qed

lemma reach_solvable:
  assumes n: "0 < n" and wf: "wf_board n b" and r: "reach n b (makeSolved n)"
  shows "isSolvable b n"
  using isSolvable_reach[OF wf r] isSolvable_makeSolved[OF n] by simp

text \<open>
  Claim C1. For every dimension \<open>n \<ge> 2\<close> and every board that is a permutation of
  \<open>0 .. n*n-1\<close>, \<open>isSolvable(board, n)\<close> is true iff some finite sequence of legal moves
  transforms the board into the solved board.
\<close>

theorem isSolvable_iff_reachable:
  assumes "2 \<le> n" "wf_board n b"
  shows "isSolvable b n \<longleftrightarrow> (\<exists>is. slides n b is = Some (makeSolved n))"
proof -
  have n: "0 < n" using assms(1) by simp
  show ?thesis
    using solvable_reach[OF assms] reach_solvable[OF n assms(2)] unfolding reach_def by blast
qed

theorem isSolvable_iff_reachable_witness:
  "2 \<le> (2::nat) \<and> wf_board 2 [1, 2, 0, 3] \<and> slides 2 [1, 2, 0, 3] [3] = Some (makeSolved 2)
   \<and> isSolvable [1, 2, 0, 3] 2
   \<and> wf_board 2 [2, 1, 3, 0] \<and> \<not> isSolvable [2, 1, 3, 0] 2
   \<and> \<not> (\<exists>is. slides 2 [2, 1, 3, 0] is = Some (makeSolved 2))"
proof -
  have two: "2 \<le> (2::nat)" by simp
  have wf1: "wf_board 2 [1, 2, 0, 3]" by (auto simp: wf_board_def)
  have wf2: "wf_board 2 [2, 1, 3, 0]" by (auto simp: wf_board_def)
  have sl: "slides 2 [1, 2, 0, 3] [3] = Some (makeSolved 2)" by code_simp
  have ns: "\<not> isSolvable [2, 1, 3, 0] 2" by code_simp
  have s1: "isSolvable [1, 2, 0, 3] 2"
    using isSolvable_iff_reachable [OF two wf1] sl by blast
  have s2: "\<not> (\<exists>is. slides 2 [2, 1, 3, 0] is = Some (makeSolved 2))"
    using isSolvable_iff_reachable [OF two wf2] ns by blast
  show ?thesis using two wf1 wf2 sl ns s1 s2 by blast
qed

end
